theory Spec2Isabelle
  imports Complex_Main
begin

section \<open>Program state\<close>

text \<open>
  The program of \<^verbatim>\<open>kaleidoscope.cpp\<close> keeps its whole state in globals and in one
  function-local static: standard input (read with \<^verbatim>\<open>getchar\<close>), the look-ahead
  character \<^verbatim>\<open>last_char\<close> of \<^verbatim>\<open>get_token\<close>, the token payloads
  \<^verbatim>\<open>identifier_str\<close> and \<^verbatim>\<open>numeric_value\<close>, the parser's \<^verbatim>\<open>current_token\<close>,
  the table \<^verbatim>\<open>binop_precedence\<close> (a \<^verbatim>\<open>std::map<char, int>\<close>, which
  \<^verbatim>\<open>operator[]\<close> may extend) and what has been written to \<^verbatim>\<open>std::cerr\<close>.
  Every function of the model takes this record and returns it updated.

  Characters read by \<^verbatim>\<open>getchar\<close> are \<^verbatim>\<open>int\<close>s: a byte \<open>0..255\<close>, or \<^verbatim>\<open>EOF\<close>.
  Tokens are \<^verbatim>\<open>int\<close>s as well: a negative code of \<^verbatim>\<open>enum token\<close>, or the byte itself.

  The \<^verbatim>\<open>double\<close> in \<^verbatim>\<open>numeric_value\<close> is carried as the exact decimal value
  (a \<^typ>\<open>rat\<close>) that \<^verbatim>\<open>strtod\<close> rounds to the nearest \<^verbatim>\<open>double\<close>; the rounding
  itself (and overflow to \<^verbatim>\<open>HUGE_VAL\<close>) is not modelled. Equal values of the model
  are equal doubles in the program.
\<close>

record state =
  stdin :: "char list"
  last_char :: int
  identifier_str :: string
  numeric_value :: rat
  current_token :: int
  binop_precedence :: "char \<rightharpoonup> int"
  cerr :: string

abbreviation EOF :: int where "EOF \<equiv> - 1"

abbreviation tok_eof :: int where "tok_eof \<equiv> - 1"
abbreviation tok_def :: int where "tok_def \<equiv> - 2"
abbreviation tok_extern :: int where "tok_extern \<equiv> - 3"
abbreviation tok_identifier :: int where "tok_identifier \<equiv> - 4"
abbreviation tok_number :: int where "tok_number \<equiv> - 5"

subsection \<open>Character classes of \<^verbatim>\<open><cctype>\<close> in the C locale\<close>

definition isspace :: "int \<Rightarrow> bool" where
  "isspace c \<longleftrightarrow> c = 32 \<or> (9 \<le> c \<and> c \<le> 13)"

definition isalpha :: "int \<Rightarrow> bool" where
  "isalpha c \<longleftrightarrow> (65 \<le> c \<and> c \<le> 90) \<or> (97 \<le> c \<and> c \<le> 122)"

definition isdigit :: "int \<Rightarrow> bool" where
  "isdigit c \<longleftrightarrow> 48 \<le> c \<and> c \<le> 57"

definition isalnum :: "int \<Rightarrow> bool" where
  "isalnum c \<longleftrightarrow> isalpha c \<or> isdigit c"

definition isascii :: "int \<Rightarrow> bool" where
  "isascii c \<longleftrightarrow> 0 \<le> c \<and> c \<le> 127"

subsection \<open>\<^verbatim>\<open>strtod\<close> on the strings the lexer builds\<close>

text \<open>
  \<^verbatim>\<open>numeric_str\<close> holds digits and dots only, so of \<^verbatim>\<open>strtod\<close>'s subject
  sequence only the decimal form is left (no white space, sign, exponent, hexadecimal form,
  infinity or NaN can occur): the longest prefix \<open>digits [. digits]\<close> that has a digit.
  Without any digit no conversion is performed and the value is zero.
\<close>

definition isdigit_char :: "char \<Rightarrow> bool" where
  "isdigit_char c \<longleftrightarrow> isdigit (of_char c)"

fun decimal :: "nat \<Rightarrow> string \<Rightarrow> nat" where
  "decimal acc [] = acc"
| "decimal acc (c # cs) = decimal (10 * acc + (of_char c - 48)) cs"

definition strtod :: "string \<Rightarrow> rat" where
  "strtod str =
     (let int_part = takeWhile isdigit_char str;
          rest = dropWhile isdigit_char str;
          frac_part = (case rest of
                         [] \<Rightarrow> []
                       | c # cs \<Rightarrow> if c = CHR ''.'' then takeWhile isdigit_char cs else [])
      in if int_part = [] \<and> frac_part = [] then 0
         else of_nat (decimal 0 int_part)
              + of_nat (decimal 0 frac_part) / of_nat (10 ^ length frac_part))"

section \<open>The lexer\<close>

text \<open>\<^verbatim>\<open>last_char = getchar()\<close>: the next byte of standard input, or \<^verbatim>\<open>EOF\<close>.\<close>

definition getchar :: "state \<Rightarrow> int \<times> state" where
  "getchar s = (case stdin s of
                  [] \<Rightarrow> (EOF, s)
                | c # cs \<Rightarrow> (of_char c, s\<lparr>stdin := cs\<rparr>))"

definition next_char :: "state \<Rightarrow> state" where
  "next_char s = (let (c, s') = getchar s in s'\<lparr>last_char := c\<rparr>)"

text \<open>
  What is left to read: the bytes of standard input, and the look-ahead character when
  it is a character. Every loop of the lexer is bounded by it.
\<close>

definition unread :: "state \<Rightarrow> nat" where
  "unread s = length (stdin s) + (if last_char s = EOF then 0 else 1)"

lemma unread_update [simp]:
  "unread (s\<lparr>identifier_str := a\<rparr>) = unread s"
  "unread (s\<lparr>numeric_value := b\<rparr>) = unread s"
  "unread (s\<lparr>current_token := c\<rparr>) = unread s"
  "unread (s\<lparr>binop_precedence := d\<rparr>) = unread s"
  "unread (s\<lparr>cerr := e\<rparr>) = unread s"
  by (simp_all add: unread_def)

lemma isspace_not_EOF: "isspace c \<Longrightarrow> c \<noteq> EOF"
  by (auto simp: isspace_def)

lemma stdin_next_char: "stdin (next_char s) = tl (stdin s)"
  by (simp add: next_char_def getchar_def split: list.split)

lemma last_char_next_char:
  "last_char (next_char s) = (case stdin s of [] \<Rightarrow> EOF | c # cs \<Rightarrow> of_char c)"
  by (simp add: next_char_def getchar_def split: list.split)

lemma of_char_not_EOF: "(of_char c :: int) \<noteq> - 1"
proof -
  have "(0::int) \<le> of_char c"
    by (metis of_nat_of_char of_nat_0_le_iff)
  then show ?thesis by simp
qed

lemma of_char_range: "(0::int) \<le> of_char c \<and> (of_char c :: int) < 256"
  by (metis of_nat_of_char nat_of_char_less_256 of_nat_0_le_iff of_nat_less_iff of_nat_numeral)

lemma next_char_not_EOF:
  "last_char (next_char s) \<noteq> EOF \<longleftrightarrow> stdin s \<noteq> []"
  by (simp add: last_char_next_char of_char_not_EOF split: list.split)

lemma unread_next_char_le: "unread (next_char s) \<le> length (stdin s)"
  by (cases "stdin s") (simp_all add: unread_def stdin_next_char last_char_next_char)

lemma unread_next_char: "last_char s \<noteq> EOF \<Longrightarrow> unread (next_char s) < unread s"
  using unread_next_char_le [of s] by (simp add: unread_def)

text \<open>\<^verbatim>\<open>while (isspace(last_char)) last_char = getchar();\<close>\<close>

function skip_whitespace :: "state \<Rightarrow> state" where
  "skip_whitespace s =
     (if isspace (last_char s) then skip_whitespace (next_char s) else s)"
  by pat_completeness auto
termination
  by (relation "measure unread") (auto simp: unread_next_char isspace_not_EOF)

declare skip_whitespace.simps [simp del]

lemma unread_skip_whitespace: "unread (skip_whitespace s) \<le> unread s"
proof (induction s rule: skip_whitespace.induct)
  case (1 s)
  show ?case
  proof (cases "isspace (last_char s)")
    case True
    then have "unread (next_char s) < unread s"
      by (simp add: unread_next_char isspace_not_EOF)
    with 1 True show ?thesis
      by (simp add: skip_whitespace.simps [of s])
  next
    case False
    then show ?thesis
      by (simp add: skip_whitespace.simps [of s])
  qed
qed

text \<open>
  \<^verbatim>\<open>while (isalnum((last_char = getchar()))) identifier_str += last_char;\<close>
\<close>

function read_identifier :: "state \<Rightarrow> state" where
  "read_identifier s =
     (let s1 = next_char s in
      if isalnum (last_char s1)
      then read_identifier (s1\<lparr>identifier_str := identifier_str s1 @ [char_of (last_char s1)]\<rparr>)
      else s1)"
  by pat_completeness auto
termination
proof (relation "measure (\<lambda>s. length (stdin s))")
  show "wf (measure (\<lambda>s. length (stdin s)))"
    by simp
next
  fix s s1 :: state
  assume s1: "s1 = next_char s" and alnum: "isalnum (last_char s1)"
  from alnum have "last_char (next_char s) \<noteq> EOF"
    unfolding s1 by (auto simp: isalnum_def isalpha_def isdigit_def)
  then have "stdin s \<noteq> []"
    by (simp add: next_char_not_EOF)
  then show "(s1\<lparr>identifier_str := identifier_str s1 @ [char_of (last_char s1)]\<rparr>, s)
               \<in> measure (\<lambda>s. length (stdin s))"
    by (simp add: s1 stdin_next_char)
qed

declare read_identifier.simps [simp del]

text \<open>
  \<^verbatim>\<open>do { numeric_str += last_char; last_char = getchar(); }
  while (isdigit(last_char) || last_char == '.');\<close>
  The local \<^verbatim>\<open>numeric_str\<close> is an argument and a result.
\<close>

function read_number :: "string \<Rightarrow> state \<Rightarrow> string \<times> state" where
  "read_number numeric_str s =
     (let numeric_str' = numeric_str @ [char_of (last_char s)];
          s1 = next_char s
      in if isdigit (last_char s1) \<or> last_char s1 = 46
         then read_number numeric_str' s1
         else (numeric_str', s1))"
  by pat_completeness auto
termination
proof (relation "measure (\<lambda>(numeric_str, s). length (stdin s))")
  show "wf (measure (\<lambda>(numeric_str, s). length (stdin s)))"
    by simp
next
  fix numeric_str numeric_str' :: string and s s1 :: state
  assume s1: "s1 = next_char s" and more: "isdigit (last_char s1) \<or> last_char s1 = 46"
  from more have "last_char (next_char s) \<noteq> EOF"
    unfolding s1 by (auto simp: isdigit_def)
  then have "stdin s \<noteq> []"
    by (simp add: next_char_not_EOF)
  then show "((numeric_str', s1), (numeric_str, s))
               \<in> measure (\<lambda>(numeric_str, s). length (stdin s))"
    by (simp add: s1 stdin_next_char)
qed

declare read_number.simps [simp del]

text \<open>
  \<^verbatim>\<open>do last_char = getchar();
  while (last_char != EOF && last_char != '\n' && last_char != '\r');\<close>
\<close>

function skip_comment :: "state \<Rightarrow> state" where
  "skip_comment s =
     (let s1 = next_char s in
      if last_char s1 \<noteq> EOF \<and> last_char s1 \<noteq> 10 \<and> last_char s1 \<noteq> 13
      then skip_comment s1
      else s1)"
  by pat_completeness auto
termination
proof (relation "measure (\<lambda>s. length (stdin s))")
  show "wf (measure (\<lambda>s. length (stdin s)))"
    by simp
next
  fix s s1 :: state
  assume s1: "s1 = next_char s"
    and more: "last_char s1 \<noteq> EOF \<and> last_char s1 \<noteq> 10 \<and> last_char s1 \<noteq> 13"
  then have "stdin s \<noteq> []"
    by (simp add: next_char_not_EOF)
  then show "(s1, s) \<in> measure (\<lambda>s. length (stdin s))"
    by (simp add: s1 stdin_next_char)
qed

declare skip_comment.simps [simp del]

lemma unread_read_identifier: "unread (read_identifier s) \<le> length (stdin s)"
proof (induction s rule: read_identifier.induct)
  case (1 s)
  let ?s1 = "next_char s"
  let ?s2 = "?s1\<lparr>identifier_str := identifier_str ?s1 @ [char_of (last_char ?s1)]\<rparr>"
  show ?case
  proof (cases "isalnum (last_char ?s1)")
    case True
    with 1 have "unread (read_identifier ?s2) \<le> length (stdin ?s2)"
      by simp
    also have "\<dots> \<le> length (stdin s)"
      by (simp add: stdin_next_char)
    finally show ?thesis
      using True by (simp add: read_identifier.simps [of s] Let_def)
  next
    case False
    then show ?thesis
      by (simp add: read_identifier.simps [of s] Let_def unread_next_char_le)
  qed
qed

lemma unread_read_number: "unread (snd (read_number numeric_str s)) \<le> length (stdin s)"
proof (induction numeric_str s rule: read_number.induct)
  case (1 numeric_str s)
  let ?s1 = "next_char s"
  show ?case
  proof (cases "isdigit (last_char ?s1) \<or> last_char ?s1 = 46")
    case True
    with 1 have "unread (snd (read_number (numeric_str @ [char_of (last_char s)]) ?s1))
                   \<le> length (stdin ?s1)"
      by simp
    also have "\<dots> \<le> length (stdin s)"
      by (simp add: stdin_next_char)
    finally show ?thesis
      using True by (simp add: read_number.simps [of numeric_str s] Let_def)
  next
    case False
    then show ?thesis
      by (simp add: read_number.simps [of numeric_str s] Let_def unread_next_char_le)
  qed
qed

lemma unread_skip_comment: "unread (skip_comment s) \<le> length (stdin s)"
proof (induction s rule: skip_comment.induct)
  case (1 s)
  let ?s1 = "next_char s"
  show ?case
  proof (cases "last_char ?s1 \<noteq> EOF \<and> last_char ?s1 \<noteq> 10 \<and> last_char ?s1 \<noteq> 13")
    case True
    with 1 have "unread (skip_comment ?s1) \<le> length (stdin ?s1)"
      by simp
    also have "\<dots> \<le> length (stdin s)"
      by (simp add: stdin_next_char)
    finally show ?thesis
      using True by (simp add: skip_comment.simps [of s] Let_def)
  next
    case False
    then show ?thesis
      by (auto simp: skip_comment.simps [of s] Let_def unread_next_char_le)
  qed
qed

text \<open>
  \<^verbatim>\<open>get_token\<close>. After a comment that does not end the input the function calls
  itself; after one that does, control falls through to the \<^verbatim>\<open>EOF\<close> test.
\<close>

function get_token :: "state \<Rightarrow> int \<times> state" where
  "get_token s0 =
     (let s = skip_whitespace s0 in
      if isalpha (last_char s) then
        (let s1 = read_identifier (s\<lparr>identifier_str := [char_of (last_char s)]\<rparr>) in
         if identifier_str s1 = ''def'' then (tok_def, s1)
         else if identifier_str s1 = ''extern'' then (tok_extern, s1)
         else (tok_identifier, s1))
      else if isdigit (last_char s) \<or> last_char s = 46 then
        (let (numeric_str, s1) = read_number [] s in
         (tok_number, s1\<lparr>numeric_value := strtod numeric_str\<rparr>))
      else if last_char s = 35 \<and> last_char (skip_comment s) \<noteq> EOF then
        get_token (skip_comment s)
      else
        (let s1 = (if last_char s = 35 then skip_comment s else s) in
         if last_char s1 = EOF then (tok_eof, s1)
         else (last_char s1, next_char s1)))"
  by pat_completeness auto
termination
proof (relation "measure unread")
  show "wf (measure unread)"
    by simp
next
  fix s0 s :: state
  assume s: "s = skip_whitespace s0"
    and comment: "last_char s = 35 \<and> last_char (skip_comment s) \<noteq> EOF"
  have "unread (skip_comment s) \<le> length (stdin s)"
    by (rule unread_skip_comment)
  also have "\<dots> < unread s"
    using comment by (simp add: unread_def)
  also have "\<dots> \<le> unread s0"
    unfolding s by (rule unread_skip_whitespace)
  finally show "(skip_comment s, s0) \<in> measure unread"
    by simp
qed

declare get_token.simps [simp del]

text \<open>
  The lexer never gives back what it has read, and every token but end of input
  uses up a character.
\<close>

lemma unread_get_token:
  "unread (snd (get_token s0)) \<le> unread s0
   \<and> (fst (get_token s0) \<noteq> tok_eof \<longrightarrow> unread (snd (get_token s0)) < unread s0)"
proof (induction s0 rule: get_token.induct)
  case (1 s0)
  define s where "s = skip_whitespace s0"
  have ws: "unread s \<le> unread s0"
    unfolding s_def by (rule unread_skip_whitespace)
  consider (ident) "isalpha (last_char s)"
    | (number) "\<not> isalpha (last_char s)" "isdigit (last_char s) \<or> last_char s = 46"
    | (comment) "\<not> isalpha (last_char s)" "\<not> (isdigit (last_char s) \<or> last_char s = 46)"
        "last_char s = 35 \<and> last_char (skip_comment s) \<noteq> EOF"
    | (other) "\<not> isalpha (last_char s)" "\<not> (isdigit (last_char s) \<or> last_char s = 46)"
        "\<not> (last_char s = 35 \<and> last_char (skip_comment s) \<noteq> EOF)"
    by blast
  then show ?case
  proof cases
    case ident
    let ?s1 = "read_identifier (s\<lparr>identifier_str := [char_of (last_char s)]\<rparr>)"
    have "unread ?s1 \<le> length (stdin s)"
      using unread_read_identifier [of "s\<lparr>identifier_str := [char_of (last_char s)]\<rparr>"]
      by simp
    moreover have "last_char s \<noteq> EOF"
      using ident by (auto simp: isalpha_def)
    ultimately have "unread ?s1 < unread s0"
      using ws by (simp add: unread_def)
    then show ?thesis
      using ident by (simp add: get_token.simps [of s0] Let_def s_def [symmetric])
  next
    case number
    have "unread (snd (read_number [] s)) \<le> length (stdin s)"
      by (rule unread_read_number)
    moreover have "last_char s \<noteq> EOF"
      using number by (auto simp: isdigit_def)
    ultimately have "unread (snd (read_number [] s)) < unread s0"
      using ws by (simp add: unread_def)
    then show ?thesis
      using number
      by (simp add: get_token.simps [of s0] Let_def s_def [symmetric] case_prod_beta)
  next
    case comment
    have "unread (skip_comment s) \<le> length (stdin s)"
      by (rule unread_skip_comment)
    then have less: "unread (skip_comment s) < unread s0"
      using ws comment by (simp add: unread_def)
    have eq: "get_token s0 = get_token (skip_comment s)"
      using comment
      by (simp add: get_token.simps [of s0] Let_def s_def [symmetric])
    have "unread (snd (get_token (skip_comment s))) \<le> unread (skip_comment s)"
      using 1 [OF s_def comment(1) comment(2) comment(3)] by simp
    with less show ?thesis
      unfolding eq by simp
  next
    case other
    define s1 where "s1 = (if last_char s = 35 then skip_comment s else s)"
    have s1_le: "unread s1 \<le> unread s0"
    proof (cases "last_char s = 35")
      case True
      have "unread (skip_comment s) \<le> length (stdin s)"
        by (rule unread_skip_comment)
      with True ws show ?thesis
        by (simp add: s1_def unread_def)
    next
      case False
      with ws show ?thesis by (simp add: s1_def)
    qed
    have eq: "get_token s0 =
        (if last_char s1 = EOF then (tok_eof, s1) else (last_char s1, next_char s1))"
      using other
      by (auto simp: get_token.simps [of s0] Let_def s_def [symmetric] s1_def [symmetric])
    show ?thesis
    proof (cases "last_char s1 = EOF")
      case True
      with s1_le show ?thesis by (simp add: eq)
    next
      case False
      then have "unread (next_char s1) < unread s1"
        by (rule unread_next_char)
      with s1_le False show ?thesis by (simp add: eq)
    qed
  qed
qed

subsection \<open>Token sequences\<close>

text \<open>
  At program start the statics hold their initialisers: \<^verbatim>\<open>last_char\<close> is a blank,
  the other globals are zero or empty, and \<^verbatim>\<open>binop_precedence\<close> holds its six
  operators.
\<close>

definition binop_precedence_init :: "char \<rightharpoonup> int" where
  "binop_precedence_init =
     [CHR ''<'' \<mapsto> 10, CHR ''>'' \<mapsto> 10, CHR ''+'' \<mapsto> 20,
      CHR ''-'' \<mapsto> 20, CHR ''*'' \<mapsto> 40, CHR ''/'' \<mapsto> 40]"

definition initial_state :: "char list \<Rightarrow> state" where
  "initial_state inp =
     \<lparr>stdin = inp, last_char = 32, identifier_str = [], numeric_value = 0,
      current_token = 0, binop_precedence = binop_precedence_init, cerr = []\<rparr>"

text \<open>
  A token as its reader sees it: the code \<^verbatim>\<open>get_token\<close> returned, with
  \<^verbatim>\<open>identifier_str\<close> when the code is \<^verbatim>\<open>tok_identifier\<close> and
  \<^verbatim>\<open>numeric_value\<close> when it is \<^verbatim>\<open>tok_number\<close>.
\<close>

datatype token =
  Tok_eof | Tok_def | Tok_extern | Tok_identifier string | Tok_number rat | Tok_char int

definition token_of :: "int \<Rightarrow> state \<Rightarrow> token" where
  "token_of t s =
     (if t = tok_eof then Tok_eof
      else if t = tok_def then Tok_def
      else if t = tok_extern then Tok_extern
      else if t = tok_identifier then Tok_identifier (identifier_str s)
      else if t = tok_number then Tok_number (numeric_value s)
      else Tok_char t)"

text \<open>
  A complete tokenization: \<^verbatim>\<open>get_token\<close> is called until it returns
  \<^verbatim>\<open>tok_eof\<close>. The result is the tokens seen, and the state the run leaves behind.
\<close>

function tokenize :: "state \<Rightarrow> token list \<times> state" where
  "tokenize s =
     (let (t, s1) = get_token s in
      if t = tok_eof then ([token_of t s1], s1)
      else (let (ts, s2) = tokenize s1 in (token_of t s1 # ts, s2)))"
  by pat_completeness auto
termination
proof (relation "measure unread")
  show "wf (measure unread)"
    by simp
next
  fix s s1 :: state and t :: int and x :: "int \<times> state"
  assume "x = get_token s" and "(t, s1) = x" and "t \<noteq> tok_eof"
  then have "fst (get_token s) \<noteq> tok_eof" and "s1 = snd (get_token s)"
    by (metis fst_conv, metis snd_conv)
  then show "(s1, s) \<in> measure unread"
    using unread_get_token [of s] by simp
qed

declare tokenize.simps [simp del]

section \<open>The abstract syntax tree\<close>

text \<open>
  The classes derived from \<^verbatim>\<open>expr_ast\<close> are the constructors of one datatype; a
  \<^verbatim>\<open>std::unique_ptr\<close> that may be \<^verbatim>\<open>nullptr\<close> is an \<open>option\<close>.
\<close>

datatype expr_ast =
  number_expr_ast rat
| variable_expr_ast string
| binary_expr_ast char expr_ast expr_ast
| call_expr_ast string "expr_ast list"

datatype prototype_ast = prototype_ast string "string list"

datatype function_ast = function_ast prototype_ast expr_ast

section \<open>The parser\<close>

definition get_next_token :: "state \<Rightarrow> state" where
  "get_next_token s = (let (t, s1) = get_token s in s1\<lparr>current_token := t\<rparr>)"

subsection \<open>Error handling\<close>

text \<open>\<^verbatim>\<open>std::to_string(int)\<close>: the decimal digits, after a minus sign when negative.\<close>

fun digits_of :: "nat \<Rightarrow> string" where
  "digits_of n =
     (if n < 10 then [char_of (48 + n)]
      else digits_of (n div 10) @ [char_of (48 + n mod 10)])"

declare digits_of.simps [simp del]

definition to_string :: "int \<Rightarrow> string" where
  "to_string i = (if i < 0 then CHR ''-'' # digits_of (nat (- i)) else digits_of (nat i))"

text \<open>
  \<^verbatim>\<open>log_error\<close> and \<^verbatim>\<open>log_error_proto\<close> write one line to \<^verbatim>\<open>std::cerr\<close> and
  return \<^verbatim>\<open>nullptr\<close>: the model returns the state, and the caller pairs it with
  \<open>None\<close>.
\<close>

definition log_error :: "string \<Rightarrow> state \<Rightarrow> state" where
  "log_error str s = s\<lparr>cerr := cerr s @ ''log_error: '' @ str @ [CHR 0x0A]\<rparr>"

definition log_error_proto :: "string \<Rightarrow> state \<Rightarrow> state" where
  "log_error_proto str s = log_error str s"

subsection \<open>Operator precedence\<close>

text \<open>
  \<^verbatim>\<open>binop_precedence[current_token]\<close>: the \<^verbatim>\<open>int\<close> is converted to the key type
  \<^verbatim>\<open>char\<close>, and \<^verbatim>\<open>operator[]\<close> of \<^verbatim>\<open>std::map\<close> inserts a value-initialised
  entry (zero) when the key is absent.
\<close>

definition binop_precedence_at :: "char \<Rightarrow> state \<Rightarrow> int \<times> state" where
  "binop_precedence_at c s =
     (case binop_precedence s c of
        None \<Rightarrow> (0, s\<lparr>binop_precedence := (binop_precedence s)(c \<mapsto> 0)\<rparr>)
      | Some v \<Rightarrow> (v, s))"

definition get_token_precedence :: "state \<Rightarrow> int \<times> state" where
  "get_token_precedence s =
     (if \<not> isascii (current_token s) then (- 1, s)
      else
        (let (token_precedence, s1) = binop_precedence_at (char_of (current_token s)) s in
         if token_precedence \<le> 0 then (- 1, s1)
         else (token_precedence, s1)))"

subsection \<open>Expressions\<close>

definition parse_number_expr :: "state \<Rightarrow> expr_ast option \<times> state" where
  "parse_number_expr s =
     (let result = number_expr_ast (numeric_value s) in
      (Some result, get_next_token s))"

text \<open>
  The expression parsers call each other, and the depth of their recursion follows the
  input. They take a bound on that depth as their first argument and return \<open>None\<close>
  when it is used up; below, a bound is computed from the state that always suffices.
  A returned \<open>Some (r, s)\<close> is the function's result \<open>r\<close> (\<open>None\<close> for
  \<^verbatim>\<open>nullptr\<close>) and the state it leaves.

  \<open>parse_identifier_expr_args\<close> is the \<^verbatim>\<open>while (true)\<close> loop of
  \<^verbatim>\<open>parse_identifier_expr\<close>; \<open>parse_binop_rhs\<close> calls itself for the next turn of
  its \<^verbatim>\<open>while (true)\<close> loop.
\<close>

fun parse_primary :: "nat \<Rightarrow> state \<Rightarrow> (expr_ast option \<times> state) option"
  and parse_paren_expr :: "nat \<Rightarrow> state \<Rightarrow> (expr_ast option \<times> state) option"
  and parse_identifier_expr :: "nat \<Rightarrow> state \<Rightarrow> (expr_ast option \<times> state) option"
  and parse_identifier_expr_args ::
    "nat \<Rightarrow> expr_ast list \<Rightarrow> state \<Rightarrow> (expr_ast list option \<times> state) option"
  and parse_binop_rhs ::
    "nat \<Rightarrow> int \<Rightarrow> expr_ast \<Rightarrow> state \<Rightarrow> (expr_ast option \<times> state) option"
  and parse_expression :: "nat \<Rightarrow> state \<Rightarrow> (expr_ast option \<times> state) option"
where
  "parse_primary 0 s = None"
| "parse_primary (Suc n) s =
     (if current_token s = tok_identifier then parse_identifier_expr n s
      else if current_token s = tok_number then Some (parse_number_expr s)
      else if current_token s = 40 then parse_paren_expr n s
      else Some (None, log_error
        (''Expected expression, got '' @ to_string (current_token s) @ '' instead'') s))"
| "parse_paren_expr 0 s = None"
| "parse_paren_expr (Suc n) s =
     (case parse_expression n (get_next_token s) of
        None \<Rightarrow> None
      | Some (None, s1) \<Rightarrow> Some (None, s1)
      | Some (Some v, s1) \<Rightarrow>
          if current_token s1 \<noteq> 41
          then Some (None, log_error
            (''expected ')', got '' @ to_string (current_token s1) @ '' instead.'') s1)
          else Some (Some v, get_next_token s1))"
| "parse_identifier_expr 0 s = None"
| "parse_identifier_expr (Suc n) s =
     (let id_name = identifier_str s;
          s1 = get_next_token s
      in if current_token s1 \<noteq> 40 then Some (Some (variable_expr_ast id_name), s1)
         else
           (let s2 = get_next_token s1 in
            case (if current_token s2 \<noteq> 41 then parse_identifier_expr_args n [] s2
                  else Some (Some [], s2)) of
              None \<Rightarrow> None
            | Some (None, s3) \<Rightarrow> Some (None, s3)
            | Some (Some args, s3) \<Rightarrow>
                Some (Some (call_expr_ast id_name args), get_next_token s3)))"
| "parse_identifier_expr_args 0 args s = None"
| "parse_identifier_expr_args (Suc n) args s =
     (case parse_expression n s of
        None \<Rightarrow> None
      | Some (None, s1) \<Rightarrow> Some (None, s1)
      | Some (Some arg, s1) \<Rightarrow>
          if current_token s1 = 41 then Some (Some (args @ [arg]), s1)
          else if current_token s1 \<noteq> 44
          then Some (None, log_error
            (''Expected ')' of ',' in argument list, got '' @ to_string (current_token s1)
             @ '' instead.'') s1)
          else parse_identifier_expr_args n (args @ [arg]) (get_next_token s1))"
| "parse_binop_rhs 0 expr_precedence left_hand_side s = None"
| "parse_binop_rhs (Suc n) expr_precedence left_hand_side s =
     (let (token_precedence, s1) = get_token_precedence s in
      if token_precedence < expr_precedence then Some (Some left_hand_side, s1)
      else
        (let binary_op = current_token s1;
             s2 = get_next_token s1
         in case parse_primary n s2 of
              None \<Rightarrow> None
            | Some (None, s3) \<Rightarrow> Some (None, s3)
            | Some (Some right_hand_side, s3) \<Rightarrow>
                (let (next_precedence, s4) = get_token_precedence s3 in
                 case (if token_precedence < next_precedence
                       then parse_binop_rhs n (token_precedence + 1) right_hand_side s4
                       else Some (Some right_hand_side, s4)) of
                   None \<Rightarrow> None
                 | Some (None, s5) \<Rightarrow> Some (None, s5)
                 | Some (Some right_hand_side', s5) \<Rightarrow>
                     parse_binop_rhs n expr_precedence
                       (binary_expr_ast (char_of binary_op) left_hand_side right_hand_side')
                       s5)))"
| "parse_expression 0 s = None"
| "parse_expression (Suc n) s =
     (case parse_primary n s of
        None \<Rightarrow> None
      | Some (None, s1) \<Rightarrow> Some (None, s1)
      | Some (Some lhs, s1) \<Rightarrow> parse_binop_rhs n 0 lhs s1)"

subsection \<open>Declarations\<close>

text \<open>
  \<^verbatim>\<open>while (get_next_token() == tok_identifier) arg_names.push_back(identifier_str);\<close>
\<close>

function read_arg_names :: "string list \<Rightarrow> state \<Rightarrow> string list \<times> state" where
  "read_arg_names arg_names s =
     (let s1 = get_next_token s in
      if current_token s1 = tok_identifier
      then read_arg_names (arg_names @ [identifier_str s1]) s1
      else (arg_names, s1))"
  by pat_completeness auto
termination
proof (relation "measure (\<lambda>(arg_names, s). unread s)")
  show "wf (measure (\<lambda>(arg_names, s). unread s))"
    by simp
next
  fix arg_names :: "string list" and s s1 :: state
  assume s1: "s1 = get_next_token s" and ident: "current_token s1 = tok_identifier"
  from ident have "fst (get_token s) \<noteq> tok_eof"
    by (simp add: s1 get_next_token_def case_prod_beta)
  then have "unread (snd (get_token s)) < unread s"
    using unread_get_token [of s] by simp
  then show "((arg_names @ [identifier_str s1], s1), (arg_names, s))
               \<in> measure (\<lambda>(arg_names, s). unread s)"
    by (simp add: s1 get_next_token_def case_prod_beta)
qed

declare read_arg_names.simps [simp del]

definition parse_prototype :: "state \<Rightarrow> prototype_ast option \<times> state" where
  "parse_prototype s =
     (if current_token s \<noteq> tok_identifier
      then (None, log_error_proto
        (''Expected function name in prototype, got '' @ to_string (current_token s)
         @ '' instead'') s)
      else
        (let fn_name = identifier_str s;
             s1 = get_next_token s
         in if current_token s1 \<noteq> 40
            then (None, log_error_proto
              (''Expected '(' in prototype, got '' @ to_string (current_token s1)
               @ '' instead.'') s1)
            else
              (let (arg_names, s2) = read_arg_names [] s1 in
               if current_token s2 \<noteq> 41
               then (None, log_error_proto
                 (''Expected ')' in prototype, got '' @ to_string (current_token s2)
                  @ '' instead.'') s2)
               else (Some (prototype_ast fn_name arg_names), get_next_token s2))))"

definition parse_definition :: "nat \<Rightarrow> state \<Rightarrow> (function_ast option \<times> state) option" where
  "parse_definition n s =
     (let s1 = get_next_token s;
          (proto, s2) = parse_prototype s1
      in case proto of
           None \<Rightarrow> Some (None, s2)
         | Some p \<Rightarrow>
             (case parse_expression n s2 of
                None \<Rightarrow> None
              | Some (None, s3) \<Rightarrow> Some (None, s3)
              | Some (Some expr, s3) \<Rightarrow> Some (Some (function_ast p expr), s3)))"

definition parse_extern :: "state \<Rightarrow> prototype_ast option \<times> state" where
  "parse_extern s = parse_prototype (get_next_token s)"

definition parse_top_level_expr ::
  "nat \<Rightarrow> state \<Rightarrow> (function_ast option \<times> state) option" where
  "parse_top_level_expr n s =
     (case parse_expression n s of
        None \<Rightarrow> None
      | Some (None, s1) \<Rightarrow> Some (None, s1)
      | Some (Some expr, s1) \<Rightarrow>
          (let proto = prototype_ast [] [] in
           Some (Some (function_ast proto expr), s1)))"

text \<open>
  The parsers start from the current token. \<open>start\<close> is the state in which a driver
  calls them on an input: the initial state after the one \<^verbatim>\<open>get_next_token()\<close> that
  reads the first token.
\<close>

definition start :: "char list \<Rightarrow> state" where
  "start inp = get_next_token (initial_state inp)"

section \<open>Notions for stating the properties\<close>

subsection \<open>How much recursion a parse needs\<close>

text \<open>
  What the parser has not consumed yet: what the lexer has not read, and the current
  token unless it is end of input. \<open>enough s\<close> bounds the depth of the recursion of
  the expression parsers started in \<open>s\<close>. \<open>advances s r s'\<close>: a call from
  \<open>s\<close> that returned \<open>r\<close> in \<open>s'\<close> gave no input back, and consumed some
  when \<open>r\<close> is a node.
\<close>

definition pending :: "state \<Rightarrow> nat" where
  "pending s = unread s + (if current_token s = tok_eof then 0 else 1)"

definition enough :: "state \<Rightarrow> nat" where
  "enough s = 4 * pending s + 3"

definition advances :: "state \<Rightarrow> 'a option \<Rightarrow> state \<Rightarrow> bool" where
  "advances s r s' \<longleftrightarrow>
     pending s' \<le> pending s \<and> (r \<noteq> None \<longrightarrow> pending s' < pending s)"

subsection \<open>The precedence table\<close>

text \<open>
  What \<^verbatim>\<open>binop_precedence[c]\<close> evaluates to in a table: the entry, or zero for
  a key the table does not hold.
\<close>

definition precedence_of :: "(char \<rightharpoonup> int) \<Rightarrow> char \<Rightarrow> int" where
  "precedence_of m c = (case m c of None \<Rightarrow> 0 | Some v \<Rightarrow> v)"

subsection \<open>Diagnostics\<close>

text \<open>
  The messages the parser passes to \<^verbatim>\<open>log_error\<close> and \<^verbatim>\<open>log_error_proto\<close>; each
  names the token it met.
\<close>

definition diagnostics :: "int \<Rightarrow> string list" where
  "diagnostics t =
     [''Expected expression, got '' @ to_string t @ '' instead'',
      ''expected ')', got '' @ to_string t @ '' instead.'',
      ''Expected ')' of ',' in argument list, got '' @ to_string t @ '' instead.'',
      ''Expected function name in prototype, got '' @ to_string t @ '' instead'',
      ''Expected '(' in prototype, got '' @ to_string t @ '' instead.'',
      ''Expected ')' in prototype, got '' @ to_string t @ '' instead.'']"

text \<open>
  \<open>reported s s'\<close>: between \<open>s\<close> and \<open>s'\<close> exactly one line was written to
  \<^verbatim>\<open>std::cerr\<close>, a diagnostic that names the token current in \<open>s'\<close>.
  \<open>error_contract s r s'\<close>: a call from \<open>s\<close> that returned \<open>r\<close> in \<open>s'\<close>
  reported so when \<open>r\<close> is \<^verbatim>\<open>nullptr\<close>, and wrote nothing when \<open>r\<close> is a node.
\<close>

definition reported :: "state \<Rightarrow> state \<Rightarrow> bool" where
  "reported s s' \<longleftrightarrow>
     (\<exists>msg \<in> set (diagnostics (current_token s')).
        cerr s' = cerr s @ ''log_error: '' @ msg @ [CHR 0x0A])"

definition error_contract :: "state \<Rightarrow> 'a option \<Rightarrow> state \<Rightarrow> bool" where
  "error_contract s r s' \<longleftrightarrow>
     (case r of None \<Rightarrow> reported s s' | Some node \<Rightarrow> cerr s' = cerr s)"

subsection \<open>The operators of a tree\<close>

fun operators :: "expr_ast \<Rightarrow> char list" where
  "operators (number_expr_ast v) = []"
| "operators (variable_expr_ast x) = []"
| "operators (binary_expr_ast op l r) = op # operators l @ operators r"
| "operators (call_expr_ast f args) = concat (map operators args)"

text \<open>
  \<open>operators_from prec e\<close>: every operator of a \<^verbatim>\<open>binary_expr_ast\<close> in \<open>e\<close> has a
  strictly positive precedence in \<open>prec\<close>.
\<close>

definition operators_from :: "(char \<Rightarrow> int) \<Rightarrow> expr_ast \<Rightarrow> bool" where
  "operators_from prec e \<longleftrightarrow> (\<forall>c \<in> set (operators e). 0 < prec c)"

subsection \<open>Token sequences and the lexer's own state\<close>

text \<open>
  The globals the lexer has no business with.
\<close>

definition parser_globals :: "state \<Rightarrow> int \<times> (char \<rightharpoonup> int) \<times> string" where
  "parser_globals s = (current_token s, binop_precedence s, cerr s)"

text \<open>
  The lexer reads standard input and its look-ahead character, and nothing else:
  two states that agree on both give the same tokens.
\<close>

definition lexer_eq :: "state \<Rightarrow> state \<Rightarrow> bool" where
  "lexer_eq s t \<longleftrightarrow> stdin s = stdin t \<and> last_char s = last_char t"

text \<open>
  A second run over the same input: standard input delivers the same bytes once more,
  and the variables of the program hold what the first run left in them. The program has
  no operation that resets them.
\<close>

definition rewind :: "char list \<Rightarrow> state \<Rightarrow> state" where
  "rewind inp s = s\<lparr>stdin := inp\<rparr>"

text \<open>
  The names of the identifier tokens a token sequence starts with, and what follows them.
\<close>

fun leading_identifiers :: "token list \<Rightarrow> string list" where
  "leading_identifiers (Tok_identifier name # ts) = name # leading_identifiers ts"
| "leading_identifiers ts = []"

fun after_identifiers :: "token list \<Rightarrow> token list" where
  "after_identifiers (Tok_identifier name # ts) = after_identifiers ts"
| "after_identifiers ts = ts"

subsection \<open>The token stream and the grammar\<close>

text \<open>
  What the parser has before it in a state: the current token, and after it the tokens
  the lexer will deliver.
\<close>

definition stream :: "state \<Rightarrow> token list" where
  "stream s =
     token_of (current_token s) s
       # (if current_token s = tok_eof then [] else fst (tokenize s))"

text \<open>
  The grammar of expressions and prototypes, over tokens. A binary operator is a literal
  character that is ASCII and has a strictly positive precedence in \<open>prec\<close>.
  \<^verbatim>\<open>
  primary         ::= NUMBER | IDENT | IDENT '(' (expression (',' expression)*)? ')'
                    | '(' expression ')'
  expression      ::= primary ( BINOP primary )*
  prototype       ::= IDENT '(' IDENT* ')'
  \<close>
\<close>

inductive primary_tokens :: "(char \<Rightarrow> int) \<Rightarrow> token list \<Rightarrow> bool"
  and expression_tokens :: "(char \<Rightarrow> int) \<Rightarrow> token list \<Rightarrow> bool"
  and binoprhs_tokens :: "(char \<Rightarrow> int) \<Rightarrow> token list \<Rightarrow> bool"
  and arguments_tokens :: "(char \<Rightarrow> int) \<Rightarrow> token list \<Rightarrow> bool"
  for prec :: "char \<Rightarrow> int"
where
  number: "primary_tokens prec [Tok_number v]"
| variable: "primary_tokens prec [Tok_identifier x]"
| call_no_arguments: "primary_tokens prec [Tok_identifier x, Tok_char 40, Tok_char 41]"
| call: "arguments_tokens prec as \<Longrightarrow>
     primary_tokens prec (Tok_identifier x # Tok_char 40 # as @ [Tok_char 41])"
| parenthesis: "expression_tokens prec e \<Longrightarrow>
     primary_tokens prec (Tok_char 40 # e @ [Tok_char 41])"
| expression: "primary_tokens prec p \<Longrightarrow> binoprhs_tokens prec r \<Longrightarrow>
     expression_tokens prec (p @ r)"
| no_operator: "binoprhs_tokens prec []"
| operator: "isascii c \<Longrightarrow> 0 < prec (char_of c) \<Longrightarrow> primary_tokens prec p \<Longrightarrow>
     binoprhs_tokens prec r \<Longrightarrow> binoprhs_tokens prec (Tok_char c # p @ r)"
| last_argument: "expression_tokens prec e \<Longrightarrow> arguments_tokens prec e"
| argument: "expression_tokens prec e \<Longrightarrow> arguments_tokens prec as \<Longrightarrow>
     arguments_tokens prec (e @ Tok_char 44 # as)"

definition prototype_tokens :: "string \<Rightarrow> string list \<Rightarrow> token list" where
  "prototype_tokens fn_name arg_names =
     Tok_identifier fn_name # Tok_char 40 # map Tok_identifier arg_names @ [Tok_char 41]"

text \<open>
  \<open>parsed G s s'\<close>: between \<open>s\<close> and \<open>s'\<close> the parser consumed tokens that form
  a \<open>G\<close>: the stream before it in \<open>s\<close> is such tokens followed by the stream in
  \<open>s'\<close>.
\<close>

definition parsed :: "(token list \<Rightarrow> bool) \<Rightarrow> state \<Rightarrow> state \<Rightarrow> bool" where
  "parsed G s s' \<longleftrightarrow> (\<exists>ts. stream s = ts @ stream s' \<and> G ts)"

section \<open>Case analysis of the parsers\<close>

text \<open>
  One rule for each expression parser: the ways in which it can return, with the calls
  it made on the way.
\<close>

lemma parse_primary_SucE:
  assumes "parse_primary (Suc n) s = Some (r, s')"
  obtains (ident) "current_token s = tok_identifier"
      "parse_identifier_expr n s = Some (r, s')"
    | (num) "current_token s = tok_number" "r = Some (number_expr_ast (numeric_value s))"
      "s' = get_next_token s"
    | (paren) "current_token s = 40" "parse_paren_expr n s = Some (r, s')"
    | (error) "current_token s \<noteq> tok_identifier" "current_token s \<noteq> tok_number"
      "current_token s \<noteq> 40" "r = None"
      "s' = log_error (''Expected expression, got '' @ to_string (current_token s)
                       @ '' instead'') s"
  using assms by (auto simp: parse_number_expr_def split: if_splits)

lemma parse_paren_expr_SucE:
  assumes "parse_paren_expr (Suc n) s = Some (r, s')"
  obtains (inner_fails) "parse_expression n (get_next_token s) = Some (None, s')" "r = None"
    | (error) v s1 where "parse_expression n (get_next_token s) = Some (Some v, s1)"
      "current_token s1 \<noteq> 41" "r = None"
      "s' = log_error (''expected ')', got '' @ to_string (current_token s1)
                       @ '' instead.'') s1"
    | (closed) v s1 where "parse_expression n (get_next_token s) = Some (Some v, s1)"
      "current_token s1 = 41" "r = Some v" "s' = get_next_token s1"
  using assms by (auto split: option.splits if_splits)

lemma parse_identifier_expr_SucE:
  assumes "parse_identifier_expr (Suc n) s = Some (r, s')"
  obtains (variable) "current_token (get_next_token s) \<noteq> 40"
      "r = Some (variable_expr_ast (identifier_str s))" "s' = get_next_token s"
    | (no_args) "current_token (get_next_token s) = 40"
      "current_token (get_next_token (get_next_token s)) = 41"
      "r = Some (call_expr_ast (identifier_str s) [])"
      "s' = get_next_token (get_next_token (get_next_token s))"
    | (args_fail) "current_token (get_next_token s) = 40"
      "current_token (get_next_token (get_next_token s)) \<noteq> 41"
      "parse_identifier_expr_args n [] (get_next_token (get_next_token s)) = Some (None, s')"
      "r = None"
    | (call) args s3 where "current_token (get_next_token s) = 40"
      "current_token (get_next_token (get_next_token s)) \<noteq> 41"
      "parse_identifier_expr_args n [] (get_next_token (get_next_token s))
         = Some (Some args, s3)"
      "r = Some (call_expr_ast (identifier_str s) args)" "s' = get_next_token s3"
  using assms by (auto simp: Let_def split: option.splits if_splits)

lemma parse_identifier_expr_args_SucE:
  assumes "parse_identifier_expr_args (Suc n) args s = Some (r, s')"
  obtains (arg_fails) "parse_expression n s = Some (None, s')" "r = None"
    | (last) arg where "parse_expression n s = Some (Some arg, s')"
      "current_token s' = 41" "r = Some (args @ [arg])"
    | (error) arg s1 where "parse_expression n s = Some (Some arg, s1)"
      "current_token s1 \<noteq> 41" "current_token s1 \<noteq> 44" "r = None"
      "s' = log_error (''Expected ')' of ',' in argument list, got ''
                       @ to_string (current_token s1) @ '' instead.'') s1"
    | (more) arg s1 where "parse_expression n s = Some (Some arg, s1)"
      "current_token s1 = 44"
      "parse_identifier_expr_args n (args @ [arg]) (get_next_token s1) = Some (r, s')"
  using assms by (auto split: option.splits if_splits)

lemma parse_binop_rhs_SucE:
  assumes "parse_binop_rhs (Suc n) p l s = Some (r, s')"
  obtains (stop) "fst (get_token_precedence s) < p" "r = Some l"
      "s' = snd (get_token_precedence s)"
    | (primary_fails) "\<not> fst (get_token_precedence s) < p"
      "parse_primary n (get_next_token (snd (get_token_precedence s))) = Some (None, s')"
      "r = None"
    | (rhs_fails) rhs s3 where "\<not> fst (get_token_precedence s) < p"
      "parse_primary n (get_next_token (snd (get_token_precedence s))) = Some (Some rhs, s3)"
      "fst (get_token_precedence s) < fst (get_token_precedence s3)"
      "parse_binop_rhs n (fst (get_token_precedence s) + 1) rhs (snd (get_token_precedence s3))
         = Some (None, s')"
      "r = None"
    | (merge) rhs s3 where "\<not> fst (get_token_precedence s) < p"
      "parse_primary n (get_next_token (snd (get_token_precedence s))) = Some (Some rhs, s3)"
      "\<not> fst (get_token_precedence s) < fst (get_token_precedence s3)"
      "parse_binop_rhs n p
         (binary_expr_ast (char_of (current_token (snd (get_token_precedence s)))) l rhs)
         (snd (get_token_precedence s3)) = Some (r, s')"
    | (absorb) rhs s3 rhs' s5 where "\<not> fst (get_token_precedence s) < p"
      "parse_primary n (get_next_token (snd (get_token_precedence s))) = Some (Some rhs, s3)"
      "fst (get_token_precedence s) < fst (get_token_precedence s3)"
      "parse_binop_rhs n (fst (get_token_precedence s) + 1) rhs (snd (get_token_precedence s3))
         = Some (Some rhs', s5)"
      "parse_binop_rhs n p
         (binary_expr_ast (char_of (current_token (snd (get_token_precedence s)))) l rhs')
         s5 = Some (r, s')"
  using assms by (auto simp: Let_def case_prod_beta split: option.splits if_splits)

lemma parse_expression_SucE:
  assumes "parse_expression (Suc n) s = Some (r, s')"
  obtains (primary_fails) "parse_primary n s = Some (None, s')" "r = None"
    | (binop_rhs) lhs s1 where "parse_primary n s = Some (Some lhs, s1)"
      "parse_binop_rhs n 0 lhs s1 = Some (r, s')"
  using assms by (auto split: option.splits)

section \<open>What the lexer leaves alone\<close>

lemma parser_globals_update [simp]:
  "parser_globals (s\<lparr>stdin := a\<rparr>) = parser_globals s"
  "parser_globals (s\<lparr>last_char := b\<rparr>) = parser_globals s"
  "parser_globals (s\<lparr>identifier_str := c\<rparr>) = parser_globals s"
  "parser_globals (s\<lparr>numeric_value := d\<rparr>) = parser_globals s"
  by (simp_all add: parser_globals_def)

lemma parser_globals_next_char [simp]: "parser_globals (next_char s) = parser_globals s"
  by (simp add: next_char_def getchar_def split: list.split)

lemma parser_globals_skip_whitespace [simp]:
  "parser_globals (skip_whitespace s) = parser_globals s"
  by (induction s rule: skip_whitespace.induct) (simp add: skip_whitespace.simps)

lemma parser_globals_read_identifier [simp]:
  "parser_globals (read_identifier s) = parser_globals s"
proof (induction s rule: read_identifier.induct)
  case (1 s)
  then show ?case
    by (simp add: read_identifier.simps [of s] Let_def)
qed

lemma parser_globals_read_number [simp]:
  "parser_globals (snd (read_number numeric_str s)) = parser_globals s"
proof (induction numeric_str s rule: read_number.induct)
  case (1 numeric_str s)
  then show ?case
    by (simp add: read_number.simps [of numeric_str s] Let_def)
qed

lemma parser_globals_skip_comment [simp]:
  "parser_globals (skip_comment s) = parser_globals s"
proof (induction s rule: skip_comment.induct)
  case (1 s)
  then show ?case
    by (simp add: skip_comment.simps [of s] Let_def)
qed

lemma parser_globals_get_token [simp]:
  "parser_globals (snd (get_token s)) = parser_globals s"
proof (induction s rule: get_token.induct)
  case (1 s0)
  then show ?case
    by (simp add: get_token.simps [of s0] Let_def case_prod_beta)
qed

lemma get_next_token_frame [simp]:
  "binop_precedence (get_next_token s) = binop_precedence s"
  "cerr (get_next_token s) = cerr s"
  using parser_globals_get_token [of s]
  by (simp_all add: get_next_token_def case_prod_beta parser_globals_def)

lemma log_error_frame [simp]:
  "current_token (log_error str s) = current_token s"
  "binop_precedence (log_error str s) = binop_precedence s"
  "pending (log_error str s) = pending s"
  by (simp_all add: log_error_def pending_def)

lemma get_token_precedence_frame [simp]:
  "current_token (snd (get_token_precedence s)) = current_token s"
  "cerr (snd (get_token_precedence s)) = cerr s"
  "pending (snd (get_token_precedence s)) = pending s"
  by (simp_all add: get_token_precedence_def binop_precedence_at_def pending_def
      case_prod_beta Let_def split: option.split)

subsection \<open>Every token consumed brings the end of the input nearer\<close>

lemma pending_get_next_token:
  "pending (get_next_token s) \<le> pending s
   \<and> (current_token s \<noteq> tok_eof \<longrightarrow> pending (get_next_token s) < pending s)"
  using unread_get_token [of s]
  by (auto simp: pending_def get_next_token_def case_prod_beta)

lemma pending_get_next_token_le: "pending (get_next_token s) \<le> pending s"
  using pending_get_next_token by blast

lemma pending_get_next_token_less:
  "current_token s \<noteq> tok_eof \<Longrightarrow> pending (get_next_token s) < pending s"
  using pending_get_next_token by blast

lemma parse_advances:
  "(\<forall>s r s'. parse_primary n s = Some (r, s') \<longrightarrow> advances s r s')
   \<and> (\<forall>s r s'. parse_paren_expr n s = Some (r, s') \<longrightarrow> advances s r s')
   \<and> (\<forall>s r s'. parse_identifier_expr n s = Some (r, s') \<longrightarrow>
          current_token s \<noteq> tok_eof \<longrightarrow> advances s r s')
   \<and> (\<forall>args s r s'. parse_identifier_expr_args n args s = Some (r, s') \<longrightarrow>
          advances s r s')
   \<and> (\<forall>p l s r s'. parse_binop_rhs n p l s = Some (r, s') \<longrightarrow>
          pending s' \<le> pending s)
   \<and> (\<forall>s r s'. parse_expression n s = Some (r, s') \<longrightarrow> advances s r s')"
proof (induction n)
  case 0
  show ?case by simp
next
  case (Suc n)
  note ih_primary = Suc [THEN conjunct1, rule_format]
  note ih_paren = Suc [THEN conjunct2, THEN conjunct1, rule_format]
  note ih_ident = Suc [THEN conjunct2, THEN conjunct2, THEN conjunct1, rule_format]
  note ih_args = Suc [THEN conjunct2, THEN conjunct2, THEN conjunct2, THEN conjunct1, rule_format]
  note ih_binop = Suc [THEN conjunct2, THEN conjunct2, THEN conjunct2, THEN conjunct2,
      THEN conjunct1, rule_format]
  note ih_expr = Suc [THEN conjunct2, THEN conjunct2, THEN conjunct2, THEN conjunct2,
      THEN conjunct2, rule_format]
  have 1: "advances s r s'" if "parse_primary (Suc n) s = Some (r, s')" for s r s'
    using that
  proof (cases rule: parse_primary_SucE)
    case ident
    then show ?thesis using ih_ident [of s r s'] by simp
  next
    case num
    then show ?thesis
      using pending_get_next_token_less [of s] by (simp add: advances_def)
  next
    case paren
    then show ?thesis using ih_paren [of s r s'] by simp
  next
    case error
    then show ?thesis by (simp add: advances_def)
  qed
  have 2: "advances s r s'" if "parse_paren_expr (Suc n) s = Some (r, s')" for s r s'
    using that
  proof (cases rule: parse_paren_expr_SucE)
    case inner_fails
    then show ?thesis
      using ih_expr [of "get_next_token s" None s'] pending_get_next_token_le [of s]
      by (simp add: advances_def)
  next
    case (error v s1)
    then show ?thesis
      using ih_expr [of "get_next_token s" "Some v" s1] pending_get_next_token_le [of s]
      by (simp add: advances_def)
  next
    case (closed v s1)
    then show ?thesis
      using ih_expr [of "get_next_token s" "Some v" s1] pending_get_next_token_le [of s]
        pending_get_next_token_le [of s1]
      by (simp add: advances_def)
  qed
  have 3: "advances s r s'"
    if "parse_identifier_expr (Suc n) s = Some (r, s')" "current_token s \<noteq> tok_eof"
    for s r s'
    using that(1)
  proof (cases rule: parse_identifier_expr_SucE)
    case variable
    then show ?thesis
      using pending_get_next_token_less [OF that(2)] by (simp add: advances_def)
  next
    case no_args
    then show ?thesis
      using pending_get_next_token_less [OF that(2)]
        pending_get_next_token_le [of "get_next_token s"]
        pending_get_next_token_le [of "get_next_token (get_next_token s)"]
      by (simp add: advances_def)
  next
    case args_fail
    then show ?thesis
      using ih_args [of "[]" "get_next_token (get_next_token s)" None s']
        pending_get_next_token_le [of s]
        pending_get_next_token_le [of "get_next_token s"]
      by (simp add: advances_def)
  next
    case (call as s3)
    then show ?thesis
      using ih_args [of "[]" "get_next_token (get_next_token s)" "Some as" s3]
        pending_get_next_token_le [of s]
        pending_get_next_token_le [of "get_next_token s"]
        pending_get_next_token_le [of s3]
      by (simp add: advances_def)
  qed
  have 4: "advances s r s'"
    if "parse_identifier_expr_args (Suc n) as s = Some (r, s')" for as s r s'
    using that
  proof (cases rule: parse_identifier_expr_args_SucE)
    case arg_fails
    then show ?thesis using ih_expr [of s None s'] by (simp add: advances_def)
  next
    case (last arg)
    then show ?thesis using ih_expr [of s "Some arg" s'] by (simp add: advances_def)
  next
    case (error arg s1)
    then show ?thesis using ih_expr [of s "Some arg" s1] by (simp add: advances_def)
  next
    case (more arg s1)
    then show ?thesis
      using ih_expr [of s "Some arg" s1] pending_get_next_token_le [of s1]
        ih_args [of "as @ [arg]" "get_next_token s1" r s']
      by (simp add: advances_def)
  qed
  have 5: "pending s' \<le> pending s"
    if "parse_binop_rhs (Suc n) p l s = Some (r, s')" for p l s r s'
    using that
  proof (cases rule: parse_binop_rhs_SucE)
    case stop
    then show ?thesis by simp
  next
    case primary_fails
    then show ?thesis
      using ih_primary [OF primary_fails(2)]
        pending_get_next_token_le [of "snd (get_token_precedence s)"]
      by (simp add: advances_def)
  next
    case (rhs_fails rhs s3)
    then show ?thesis
      using ih_primary [OF rhs_fails(2)] ih_binop [OF rhs_fails(4)]
        pending_get_next_token_le [of "snd (get_token_precedence s)"]
      by (simp add: advances_def)
  next
    case (merge rhs s3)
    then show ?thesis
      using ih_primary [OF merge(2)] ih_binop [OF merge(4)]
        pending_get_next_token_le [of "snd (get_token_precedence s)"]
      by (simp add: advances_def)
  next
    case (absorb rhs s3 rhs' s5)
    then show ?thesis
      using ih_primary [OF absorb(2)] ih_binop [OF absorb(4)] ih_binop [OF absorb(5)]
        pending_get_next_token_le [of "snd (get_token_precedence s)"]
      by (simp add: advances_def)
  qed
  have 6: "advances s r s'" if "parse_expression (Suc n) s = Some (r, s')" for s r s'
    using that
  proof (cases rule: parse_expression_SucE)
    case primary_fails
    then show ?thesis using ih_primary [of s None s'] by (simp add: advances_def)
  next
    case (binop_rhs lhs s1)
    then show ?thesis
      using ih_primary [OF binop_rhs(1)] ih_binop [OF binop_rhs(2)]
      by (simp add: advances_def)
  qed
  show ?case
    by (intro conjI allI impI) (erule 1 2 3 4 5 6; assumption?)+
qed

lemma parse_enough_fuel:
  "(\<forall>s. 4 * pending s + 2 \<le> n \<longrightarrow> parse_primary n s \<noteq> None)
   \<and> (\<forall>s. current_token s \<noteq> tok_eof \<longrightarrow> 4 * pending s + 1 \<le> n \<longrightarrow>
          parse_paren_expr n s \<noteq> None)
   \<and> (\<forall>s. current_token s \<noteq> tok_eof \<longrightarrow> 4 * pending s + 1 \<le> n \<longrightarrow>
          parse_identifier_expr n s \<noteq> None)
   \<and> (\<forall>args s. 4 * pending s + 4 \<le> n \<longrightarrow> parse_identifier_expr_args n args s \<noteq> None)
   \<and> (\<forall>p l s. 4 * pending s + 3 \<le> n \<longrightarrow> parse_binop_rhs n p l s \<noteq> None)
   \<and> (\<forall>s. 4 * pending s + 3 \<le> n \<longrightarrow> parse_expression n s \<noteq> None)"
proof (induction n)
  case 0
  show ?case by simp
next
  case (Suc n)
  note ih_primary = Suc [THEN conjunct1, rule_format]
  note ih_paren = Suc [THEN conjunct2, THEN conjunct1, rule_format]
  note ih_ident = Suc [THEN conjunct2, THEN conjunct2, THEN conjunct1, rule_format]
  note ih_args = Suc [THEN conjunct2, THEN conjunct2, THEN conjunct2, THEN conjunct1, rule_format]
  note ih_binop = Suc [THEN conjunct2, THEN conjunct2, THEN conjunct2, THEN conjunct2,
      THEN conjunct1, rule_format]
  note ih_expr = Suc [THEN conjunct2, THEN conjunct2, THEN conjunct2, THEN conjunct2,
      THEN conjunct2, rule_format]
  note adv_primary = parse_advances [of n, THEN conjunct1, rule_format]
  note adv_args = parse_advances [of n, THEN conjunct2, THEN conjunct2, THEN conjunct2,
      THEN conjunct1, rule_format]
  note adv_binop = parse_advances [of n, THEN conjunct2, THEN conjunct2, THEN conjunct2,
      THEN conjunct2, THEN conjunct1, rule_format]
  note adv_expr = parse_advances [of n, THEN conjunct2, THEN conjunct2, THEN conjunct2,
      THEN conjunct2, THEN conjunct2, rule_format]
  have 1: "parse_primary (Suc n) s \<noteq> None" if "4 * pending s + 2 \<le> Suc n" for s
    using that ih_ident [of s] ih_paren [of s] by simp
  have 2: "parse_paren_expr (Suc n) s \<noteq> None"
    if tok: "current_token s \<noteq> tok_eof" and fuel: "4 * pending s + 1 \<le> Suc n" for s
  proof -
    have "pending (get_next_token s) < pending s"
      using tok by (rule pending_get_next_token_less)
    with fuel have "4 * pending (get_next_token s) + 3 \<le> n"
      by simp
    then obtain r s1 where "parse_expression n (get_next_token s) = Some (r, s1)"
      using ih_expr [of "get_next_token s"] by auto
    then show ?thesis
      by (cases r) simp_all
  qed
  have 3: "parse_identifier_expr (Suc n) s \<noteq> None"
    if tok: "current_token s \<noteq> tok_eof" and fuel: "4 * pending s + 1 \<le> Suc n" for s
  proof (cases "current_token (get_next_token s) \<noteq> 40
      \<or> current_token (get_next_token (get_next_token s)) = 41")
    case True
    then show ?thesis by (auto simp: Let_def)
  next
    case False
    let ?s2 = "get_next_token (get_next_token s)"
    have "pending (get_next_token s) < pending s"
      using tok by (rule pending_get_next_token_less)
    moreover have "pending ?s2 < pending (get_next_token s)"
      using False by (intro pending_get_next_token_less) simp
    ultimately have "4 * pending ?s2 + 4 \<le> n"
      using fuel by simp
    then obtain r s3 where "parse_identifier_expr_args n [] ?s2 = Some (r, s3)"
      using ih_args [of ?s2 "[]"] by auto
    with False show ?thesis
      by (cases r) (simp_all add: Let_def)
  qed
  have 4: "parse_identifier_expr_args (Suc n) as s \<noteq> None"
    if fuel: "4 * pending s + 4 \<le> Suc n" for as s
  proof -
    from fuel obtain r s1 where e: "parse_expression n s = Some (r, s1)"
      using ih_expr [of s] by auto
    show ?thesis
    proof (cases r)
      case None
      with e show ?thesis by simp
    next
      case (Some arg)
      show ?thesis
      proof (cases "current_token s1 = 44")
        case True
        have "pending s1 < pending s"
          using adv_expr [OF e] Some by (simp add: advances_def)
        moreover have "pending (get_next_token s1) < pending s1"
          using True by (intro pending_get_next_token_less) simp
        ultimately have "4 * pending (get_next_token s1) + 4 \<le> n"
          using fuel by simp
        then have "parse_identifier_expr_args n (as @ [arg]) (get_next_token s1) \<noteq> None"
          by (rule ih_args)
        with e Some True show ?thesis by simp
      next
        case False
        with e Some show ?thesis by simp
      qed
    qed
  qed
  have 5: "parse_binop_rhs (Suc n) p l s \<noteq> None"
    if fuel: "4 * pending s + 3 \<le> Suc n" for p l s
  proof (cases "fst (get_token_precedence s) < p")
    case True
    then show ?thesis by (simp add: case_prod_beta)
  next
    case False
    define tp where "tp = fst (get_token_precedence s)"
    define s2 where "s2 = get_next_token (snd (get_token_precedence s))"
    have s2: "pending s2 \<le> pending s"
      using pending_get_next_token_le [of "snd (get_token_precedence s)"]
      by (simp add: s2_def)
    with fuel have "4 * pending s2 + 2 \<le> n"
      by simp
    then obtain r s3 where prim: "parse_primary n s2 = Some (r, s3)"
      using ih_primary [of s2] by auto
    show ?thesis
    proof (cases r)
      case None
      with prim False show ?thesis
        by (simp add: case_prod_beta Let_def s2_def)
    next
      case (Some rhs)
      define s4 where "s4 = snd (get_token_precedence s3)"
      have "pending s3 < pending s2"
        using adv_primary [OF prim] Some by (simp add: advances_def)
      then have s4: "pending s4 < pending s"
        using s2 by (simp add: s4_def)
      define x where "x = (if tp < fst (get_token_precedence s3)
        then parse_binop_rhs n (tp + 1) rhs s4 else Some (Some rhs, s4))"
      have "x \<noteq> None"
        using s4 fuel ih_binop [of s4 "tp + 1" rhs] by (simp add: x_def)
      then obtain r' s5 where x: "x = Some (r', s5)"
        by auto
      have s5: "pending s5 \<le> pending s4"
        using x adv_binop [of "tp + 1" rhs s4 r' s5]
        by (auto simp: x_def split: if_splits)
      have eq: "parse_binop_rhs (Suc n) p l s =
        (case x of
           None \<Rightarrow> None
         | Some (None, s5) \<Rightarrow> Some (None, s5)
         | Some (Some rhs', s5) \<Rightarrow>
             parse_binop_rhs n p
               (binary_expr_ast (char_of (current_token (snd (get_token_precedence s)))) l
                  rhs') s5)"
        using False prim Some
        by (simp add: case_prod_beta Let_def s2_def [symmetric] tp_def [symmetric]
            s4_def [symmetric] x_def)
      show ?thesis
      proof (cases r')
        case None
        with x show ?thesis unfolding eq by simp
      next
        case (Some rhs')
        have "4 * pending s5 + 3 \<le> n"
          using s5 s4 fuel by simp
        then have "parse_binop_rhs n p
               (binary_expr_ast (char_of (current_token (snd (get_token_precedence s)))) l
                  rhs') s5 \<noteq> None"
          by (rule ih_binop)
        with x Some show ?thesis unfolding eq by simp
      qed
    qed
  qed
  have 6: "parse_expression (Suc n) s \<noteq> None" if fuel: "4 * pending s + 3 \<le> Suc n" for s
  proof -
    from fuel obtain r s1 where prim: "parse_primary n s = Some (r, s1)"
      using ih_primary [of s] by auto
    show ?thesis
    proof (cases r)
      case None
      with prim show ?thesis by simp
    next
      case (Some lhs)
      have "pending s1 < pending s"
        using adv_primary [OF prim] Some by (simp add: advances_def)
      with fuel have "parse_binop_rhs n 0 lhs s1 \<noteq> None"
        by (intro ih_binop) simp
      with prim Some show ?thesis by simp
    qed
  qed
  show ?case
    by (intro conjI allI impI) (erule 1 2 3 4 5 6; assumption?)+
qed

subsection \<open>A larger bound changes nothing\<close>

lemma parse_fuel_Suc:
  "(\<forall>s r s'. parse_primary n s = Some (r, s') \<longrightarrow> parse_primary (Suc n) s = Some (r, s'))
   \<and> (\<forall>s r s'. parse_paren_expr n s = Some (r, s') \<longrightarrow>
          parse_paren_expr (Suc n) s = Some (r, s'))
   \<and> (\<forall>s r s'. parse_identifier_expr n s = Some (r, s') \<longrightarrow>
          parse_identifier_expr (Suc n) s = Some (r, s'))
   \<and> (\<forall>args s r s'. parse_identifier_expr_args n args s = Some (r, s') \<longrightarrow>
          parse_identifier_expr_args (Suc n) args s = Some (r, s'))
   \<and> (\<forall>p l s r s'. parse_binop_rhs n p l s = Some (r, s') \<longrightarrow>
          parse_binop_rhs (Suc n) p l s = Some (r, s'))
   \<and> (\<forall>s r s'. parse_expression n s = Some (r, s') \<longrightarrow>
          parse_expression (Suc n) s = Some (r, s'))"
proof (induction n)
  case 0
  show ?case by simp
next
  case (Suc n)
  note ih_primary = Suc [THEN conjunct1, rule_format]
  note ih_paren = Suc [THEN conjunct2, THEN conjunct1, rule_format]
  note ih_ident = Suc [THEN conjunct2, THEN conjunct2, THEN conjunct1, rule_format]
  note ih_args = Suc [THEN conjunct2, THEN conjunct2, THEN conjunct2, THEN conjunct1, rule_format]
  note ih_binop = Suc [THEN conjunct2, THEN conjunct2, THEN conjunct2, THEN conjunct2,
      THEN conjunct1, rule_format]
  note ih_expr = Suc [THEN conjunct2, THEN conjunct2, THEN conjunct2, THEN conjunct2,
      THEN conjunct2, rule_format]
  have 1: "parse_primary (Suc (Suc n)) s = Some (r, s')"
    if "parse_primary (Suc n) s = Some (r, s')" for s r s'
    using that
  proof (cases rule: parse_primary_SucE)
    case ident
    then show ?thesis using ih_ident [OF ident(2)] by simp
  next
    case num
    then show ?thesis by (simp add: parse_number_expr_def)
  next
    case paren
    then show ?thesis using ih_paren [OF paren(2)] by simp
  next
    case error
    then show ?thesis by simp
  qed
  have 2: "parse_paren_expr (Suc (Suc n)) s = Some (r, s')"
    if "parse_paren_expr (Suc n) s = Some (r, s')" for s r s'
    using that
  proof (cases rule: parse_paren_expr_SucE)
    case inner_fails
    then show ?thesis using ih_expr [OF inner_fails(1)] by simp
  next
    case (error v s1)
    then show ?thesis using ih_expr [OF error(1)] by simp
  next
    case (closed v s1)
    then show ?thesis using ih_expr [OF closed(1)] by simp
  qed
  have 3: "parse_identifier_expr (Suc (Suc n)) s = Some (r, s')"
    if "parse_identifier_expr (Suc n) s = Some (r, s')" for s r s'
    using that
  proof (cases rule: parse_identifier_expr_SucE)
    case variable
    then show ?thesis by (simp add: Let_def)
  next
    case no_args
    then show ?thesis by (simp add: Let_def)
  next
    case args_fail
    then show ?thesis using ih_args [OF args_fail(3)] by (simp add: Let_def)
  next
    case (call as s3)
    then show ?thesis using ih_args [OF call(3)] by (simp add: Let_def)
  qed
  have 4: "parse_identifier_expr_args (Suc (Suc n)) as s = Some (r, s')"
    if "parse_identifier_expr_args (Suc n) as s = Some (r, s')" for as s r s'
    using that
  proof (cases rule: parse_identifier_expr_args_SucE)
    case arg_fails
    then show ?thesis using ih_expr [OF arg_fails(1)] by simp
  next
    case (last arg)
    then show ?thesis using ih_expr [OF last(1)] by simp
  next
    case (error arg s1)
    then show ?thesis using ih_expr [OF error(1)] by simp
  next
    case (more arg s1)
    then show ?thesis using ih_expr [OF more(1)] ih_args [OF more(3)] by simp
  qed
  have 5: "parse_binop_rhs (Suc (Suc n)) p l s = Some (r, s')"
    if "parse_binop_rhs (Suc n) p l s = Some (r, s')" for p l s r s'
    using that
  proof (cases rule: parse_binop_rhs_SucE)
    case stop
    then show ?thesis by (simp add: case_prod_beta)
  next
    case primary_fails
    then show ?thesis
      using ih_primary [OF primary_fails(2)] by (simp add: case_prod_beta Let_def)
  next
    case (rhs_fails rhs s3)
    then show ?thesis
      using ih_primary [OF rhs_fails(2)] ih_binop [OF rhs_fails(4)]
      by (simp add: case_prod_beta Let_def)
  next
    case (merge rhs s3)
    then show ?thesis
      using ih_primary [OF merge(2)] ih_binop [OF merge(4)]
      by (simp add: case_prod_beta Let_def)
  next
    case (absorb rhs s3 rhs' s5)
    then show ?thesis
      using ih_primary [OF absorb(2)] ih_binop [OF absorb(4)] ih_binop [OF absorb(5)]
      by (simp add: case_prod_beta Let_def)
  qed
  have 6: "parse_expression (Suc (Suc n)) s = Some (r, s')"
    if "parse_expression (Suc n) s = Some (r, s')" for s r s'
    using that
  proof (cases rule: parse_expression_SucE)
    case primary_fails
    then show ?thesis using ih_primary [OF primary_fails(1)] by simp
  next
    case (binop_rhs lhs s1)
    then show ?thesis
      using ih_primary [OF binop_rhs(1)] ih_binop [OF binop_rhs(2)] by simp
  qed
  show ?case
    by (intro conjI allI impI) (erule 1 2 3 4 5 6; assumption?)+
qed

lemma parse_expression_fuel_mono:
  assumes "parse_expression n s = Some x" and "n \<le> m"
  shows "parse_expression m s = Some x"
proof -
  obtain r s' where x: "x = (r, s')"
    by (cases x)
  have "parse_expression (n + k) s = Some (r, s')" for k
  proof (induction k)
    case 0
    from assms(1) show ?case
      unfolding x by simp
  next
    case (Suc k)
    then have "parse_expression (Suc (n + k)) s = Some (r, s')"
      by (rule parse_fuel_Suc [THEN conjunct2, THEN conjunct2, THEN conjunct2,
            THEN conjunct2, THEN conjunct2, rule_format])
    then show ?case
      by (simp only: add_Suc_right)
  qed
  from this [of "m - n"] assms(2) show ?thesis
    unfolding x by simp
qed

lemma parse_expression_enough:
  assumes "enough s \<le> n"
  shows "parse_expression n s = parse_expression (enough s) s"
proof -
  have "parse_expression (enough s) s \<noteq> None"
    using parse_enough_fuel [of "enough s"] by (simp add: enough_def)
  then obtain x where x: "parse_expression (enough s) s = Some x"
    by auto
  from x assms have "parse_expression n s = Some x"
    by (rule parse_expression_fuel_mono)
  with x show ?thesis
    by simp
qed

subsection \<open>The declaration parsers consume as well\<close>

lemma pending_read_arg_names: "pending (snd (read_arg_names arg_names s)) \<le> pending s"
proof (induction arg_names s rule: read_arg_names.induct)
  case (1 arg_names s)
  let ?s1 = "get_next_token s"
  show ?case
  proof (cases "current_token ?s1 = tok_identifier")
    case True
    with 1 have "pending (snd (read_arg_names (arg_names @ [identifier_str ?s1]) ?s1))
                   \<le> pending ?s1"
      by simp
    also have "\<dots> \<le> pending s"
      by (rule pending_get_next_token_le)
    finally show ?thesis
      using True by (simp add: read_arg_names.simps [of arg_names s] Let_def)
  next
    case False
    then show ?thesis
      by (simp add: read_arg_names.simps [of arg_names s] Let_def pending_get_next_token_le)
  qed
qed

lemma pending_parse_prototype: "pending (snd (parse_prototype s)) \<le> pending s"
proof -
  have "pending (snd (read_arg_names [] (get_next_token s))) \<le> pending s"
    using pending_read_arg_names [of "[]" "get_next_token s"]
      pending_get_next_token_le [of s]
    by simp
  moreover have
    "pending (get_next_token (snd (read_arg_names [] (get_next_token s)))) \<le> pending s"
    using calculation
      pending_get_next_token_le [of "snd (read_arg_names [] (get_next_token s))"]
    by simp
  ultimately show ?thesis
    using pending_get_next_token_le [of s]
    by (simp add: parse_prototype_def log_error_proto_def Let_def case_prod_beta)
qed

subsection \<open>Looking up a precedence\<close>

lemma fst_binop_precedence_at:
  "fst (binop_precedence_at c s) = precedence_of (binop_precedence s) c"
  by (simp add: binop_precedence_at_def precedence_of_def split: option.split)

lemma precedence_of_binop_precedence_at:
  "precedence_of (binop_precedence (snd (binop_precedence_at c s)))
     = precedence_of (binop_precedence s)"
  by (rule ext) (simp add: binop_precedence_at_def precedence_of_def split: option.split)

lemma fst_get_token_precedence:
  "fst (get_token_precedence s) =
     (if \<not> isascii (current_token s)
         \<or> precedence_of (binop_precedence s) (char_of (current_token s)) \<le> 0
      then - 1
      else precedence_of (binop_precedence s) (char_of (current_token s)))"
  using fst_binop_precedence_at [of "char_of (current_token s)" s]
  by (simp add: get_token_precedence_def case_prod_beta Let_def)

lemma precedence_of_get_token_precedence [simp]:
  "precedence_of (binop_precedence (snd (get_token_precedence s)))
     = precedence_of (binop_precedence s)"
  using precedence_of_binop_precedence_at [of "char_of (current_token s)" s]
  by (simp add: get_token_precedence_def case_prod_beta Let_def)

lemma precedence_of_init:
  "precedence_of binop_precedence_init c =
     (if c = CHR ''<'' \<or> c = CHR ''>'' then 10
      else if c = CHR ''+'' \<or> c = CHR ''-'' then 20
      else if c = CHR ''*'' \<or> c = CHR ''/'' then 40
      else 0)"
  by (simp add: precedence_of_def binop_precedence_init_def)

lemma char_of_ascii: "isascii t \<Longrightarrow> char_of t = c \<longleftrightarrow> t = of_char c"
proof
  assume ascii: "isascii t" and "char_of t = c"
  then have "of_char c = t mod 256"
    by auto
  with ascii show "t = of_char c"
    by (simp add: isascii_def)
next
  assume "t = of_char c"
  then show "char_of t = c"
    by simp
qed

lemma get_token_never_dot: "fst (get_token s0) \<noteq> 46"
proof (induction s0 rule: get_token.induct)
  case (1 s0)
  define s where "s = skip_whitespace s0"
  consider (ident) "isalpha (last_char s)"
    | (number) "\<not> isalpha (last_char s)" "isdigit (last_char s) \<or> last_char s = 46"
    | (comment) "\<not> isalpha (last_char s)" "\<not> (isdigit (last_char s) \<or> last_char s = 46)"
        "last_char s = 35 \<and> last_char (skip_comment s) \<noteq> EOF"
    | (other) "\<not> isalpha (last_char s)" "\<not> (isdigit (last_char s) \<or> last_char s = 46)"
        "\<not> (last_char s = 35 \<and> last_char (skip_comment s) \<noteq> EOF)"
    by blast
  then show ?case
  proof cases
    case ident
    then show ?thesis
      by (simp add: get_token.simps [of s0] Let_def s_def [symmetric])
  next
    case number
    then show ?thesis
      by (simp add: get_token.simps [of s0] Let_def s_def [symmetric] case_prod_beta)
  next
    case comment
    have "get_token s0 = get_token (skip_comment s)"
      using comment by (simp add: get_token.simps [of s0] Let_def s_def [symmetric])
    then show ?thesis
      using 1 [OF s_def comment(1) comment(2) comment(3)] by simp
  next
    case other
    then show ?thesis
      by (auto simp: get_token.simps [of s0] Let_def s_def [symmetric])
  qed
qed

section \<open>Failures are reported\<close>

lemma error_contract_simps [simp]:
  "error_contract s None s' \<longleftrightarrow> reported s s'"
  "error_contract s (Some x) s' \<longleftrightarrow> cerr s' = cerr s"
  by (simp_all add: error_contract_def)

lemma reported_cerr: "reported s1 s' \<Longrightarrow> cerr s1 = cerr s \<Longrightarrow> reported s s'"
  by (simp add: reported_def)

lemma error_contract_cerr:
  "error_contract s1 r s' \<Longrightarrow> cerr s1 = cerr s \<Longrightarrow> error_contract s r s'"
  by (cases r) (simp_all add: reported_def)

lemma reported_log_error:
  "msg \<in> set (diagnostics (current_token s)) \<Longrightarrow> reported s (log_error msg s)"
  by (auto simp: reported_def log_error_def)

lemma cerr_read_arg_names [simp]: "cerr (snd (read_arg_names arg_names s)) = cerr s"
proof (induction arg_names s rule: read_arg_names.induct)
  case (1 arg_names s)
  then show ?case
    by (simp add: read_arg_names.simps [of arg_names s] Let_def)
qed

lemma error_contract_parse_prototype:
  "error_contract s (fst (parse_prototype s)) (snd (parse_prototype s))"
proof -
  define s1 where "s1 = get_next_token s"
  define s2 where "s2 = snd (read_arg_names [] s1)"
  have cerr: "cerr s1 = cerr s" "cerr s2 = cerr s"
    by (simp_all add: s1_def s2_def)
  have log: "reported s (log_error msg t)"
    if "msg \<in> set (diagnostics (current_token t))" "cerr t = cerr s" for msg t
    using reported_log_error [OF that(1)] that(2) by (rule reported_cerr)
  consider (no_name) "current_token s \<noteq> tok_identifier"
    | (no_open) "current_token s = tok_identifier" "current_token s1 \<noteq> 40"
    | (no_close) "current_token s = tok_identifier" "current_token s1 = 40"
        "current_token s2 \<noteq> 41"
    | (complete) "current_token s = tok_identifier" "current_token s1 = 40"
        "current_token s2 = 41"
    by blast
  then show ?thesis
  proof cases
    case no_name
    then show ?thesis
      by (simp add: parse_prototype_def log_error_proto_def log diagnostics_def)
  next
    case no_open
    then show ?thesis
      by (simp add: parse_prototype_def log_error_proto_def Let_def s1_def [symmetric]
          log cerr diagnostics_def)
  next
    case no_close
    then show ?thesis
      by (simp add: parse_prototype_def log_error_proto_def Let_def case_prod_beta
          s1_def [symmetric] s2_def [symmetric] log cerr diagnostics_def)
  next
    case complete
    then show ?thesis
      by (simp add: parse_prototype_def log_error_proto_def Let_def case_prod_beta
          s1_def [symmetric] s2_def [symmetric] cerr)
  qed
qed

lemma parse_error_contract:
  "(\<forall>s r s'. parse_primary n s = Some (r, s') \<longrightarrow> error_contract s r s')
   \<and> (\<forall>s r s'. parse_paren_expr n s = Some (r, s') \<longrightarrow> error_contract s r s')
   \<and> (\<forall>s r s'. parse_identifier_expr n s = Some (r, s') \<longrightarrow> error_contract s r s')
   \<and> (\<forall>args s r s'. parse_identifier_expr_args n args s = Some (r, s') \<longrightarrow>
          error_contract s r s')
   \<and> (\<forall>p l s r s'. parse_binop_rhs n p l s = Some (r, s') \<longrightarrow> error_contract s r s')
   \<and> (\<forall>s r s'. parse_expression n s = Some (r, s') \<longrightarrow> error_contract s r s')"
proof (induction n)
  case 0
  show ?case by simp
next
  case (Suc n)
  note ih_primary = Suc [THEN conjunct1, rule_format]
  note ih_paren = Suc [THEN conjunct2, THEN conjunct1, rule_format]
  note ih_ident = Suc [THEN conjunct2, THEN conjunct2, THEN conjunct1, rule_format]
  note ih_args = Suc [THEN conjunct2, THEN conjunct2, THEN conjunct2, THEN conjunct1, rule_format]
  note ih_binop = Suc [THEN conjunct2, THEN conjunct2, THEN conjunct2, THEN conjunct2,
      THEN conjunct1, rule_format]
  note ih_expr = Suc [THEN conjunct2, THEN conjunct2, THEN conjunct2, THEN conjunct2,
      THEN conjunct2, rule_format]
  have 1: "error_contract s r s'" if "parse_primary (Suc n) s = Some (r, s')" for s r s'
    using that
  proof (cases rule: parse_primary_SucE)
    case ident
    then show ?thesis by (simp add: ih_ident)
  next
    case num
    then show ?thesis by simp
  next
    case paren
    then show ?thesis by (simp add: ih_paren)
  next
    case error
    then show ?thesis by (simp add: reported_log_error diagnostics_def)
  qed
  have 2: "error_contract s r s'" if "parse_paren_expr (Suc n) s = Some (r, s')" for s r s'
    using that
  proof (cases rule: parse_paren_expr_SucE)
    case inner_fails
    then show ?thesis
      using ih_expr [OF inner_fails(1)] by (auto intro: reported_cerr)
  next
    case (error v s1)
    have "reported s1 s'"
      unfolding error(4) by (rule reported_log_error) (simp add: diagnostics_def)
    then show ?thesis
      using ih_expr [OF error(1)] error(3) by (auto intro: reported_cerr)
  next
    case (closed v s1)
    then show ?thesis
      using ih_expr [OF closed(1)] by simp
  qed
  have 3: "error_contract s r s'"
    if "parse_identifier_expr (Suc n) s = Some (r, s')" for s r s'
    using that
  proof (cases rule: parse_identifier_expr_SucE)
    case variable
    then show ?thesis by simp
  next
    case no_args
    then show ?thesis by simp
  next
    case args_fail
    then show ?thesis
      using ih_args [OF args_fail(3)] by (auto intro: reported_cerr)
  next
    case (call as s3)
    then show ?thesis
      using ih_args [OF call(3)] by simp
  qed
  have 4: "error_contract s r s'"
    if "parse_identifier_expr_args (Suc n) as s = Some (r, s')" for as s r s'
    using that
  proof (cases rule: parse_identifier_expr_args_SucE)
    case arg_fails
    then show ?thesis using ih_expr [OF arg_fails(1)] by simp
  next
    case (last arg)
    then show ?thesis using ih_expr [OF last(1)] by simp
  next
    case (error arg s1)
    have "reported s1 s'"
      unfolding error(5) by (rule reported_log_error) (simp add: diagnostics_def)
    then show ?thesis
      using ih_expr [OF error(1)] error(4) by (auto intro: reported_cerr)
  next
    case (more arg s1)
    have "error_contract (get_next_token s1) r s'"
      using more(3) by (rule ih_args)
    then show ?thesis
      using ih_expr [OF more(1)] by (auto intro: error_contract_cerr)
  qed
  have 5: "error_contract s r s'"
    if "parse_binop_rhs (Suc n) p l s = Some (r, s')" for p l s r s'
    using that
  proof (cases rule: parse_binop_rhs_SucE)
    case stop
    then show ?thesis by simp
  next
    case primary_fails
    then show ?thesis
      using ih_primary [OF primary_fails(2)] by (auto intro: reported_cerr)
  next
    case (rhs_fails rhs s3)
    then show ?thesis
      using ih_primary [OF rhs_fails(2)] ih_binop [OF rhs_fails(4)]
      by (auto intro: reported_cerr)
  next
    case (merge rhs s3)
    then show ?thesis
      using ih_primary [OF merge(2)] ih_binop [OF merge(4)]
      by (auto intro: error_contract_cerr)
  next
    case (absorb rhs s3 rhs' s5)
    then show ?thesis
      using ih_primary [OF absorb(2)] ih_binop [OF absorb(4)] ih_binop [OF absorb(5)]
      by (auto intro: error_contract_cerr)
  qed
  have 6: "error_contract s r s'" if "parse_expression (Suc n) s = Some (r, s')" for s r s'
    using that
  proof (cases rule: parse_expression_SucE)
    case primary_fails
    then show ?thesis using ih_primary [OF primary_fails(1)] by simp
  next
    case (binop_rhs lhs s1)
    then show ?thesis
      using ih_primary [OF binop_rhs(1)] ih_binop [OF binop_rhs(2)]
      by (auto intro: error_contract_cerr)
  qed
  show ?case
    by (intro conjI allI impI) (erule 1 2 3 4 5 6; assumption?)+
qed

section \<open>Operators come from the table\<close>

lemma operators_from_simps [simp]:
  "operators_from prec (number_expr_ast v)"
  "operators_from prec (variable_expr_ast x)"
  "operators_from prec (binary_expr_ast op l r) \<longleftrightarrow>
     0 < prec op \<and> operators_from prec l \<and> operators_from prec r"
  "operators_from prec (call_expr_ast f args) \<longleftrightarrow> (\<forall>a \<in> set args. operators_from prec a)"
  by (auto simp: operators_from_def)

text \<open>The parser extends the table by zero entries only: every precedence stays.\<close>

lemma binop_precedence_read_arg_names [simp]:
  "binop_precedence (snd (read_arg_names arg_names s)) = binop_precedence s"
proof (induction arg_names s rule: read_arg_names.induct)
  case (1 arg_names s)
  then show ?case
    by (simp add: read_arg_names.simps [of arg_names s] Let_def)
qed

lemma binop_precedence_parse_prototype [simp]:
  "binop_precedence (snd (parse_prototype s)) = binop_precedence s"
  by (simp add: parse_prototype_def log_error_proto_def Let_def case_prod_beta)

lemma parse_keeps_precedence:
  "(\<forall>s r s'. parse_primary n s = Some (r, s') \<longrightarrow>
      precedence_of (binop_precedence s') = precedence_of (binop_precedence s))
   \<and> (\<forall>s r s'. parse_paren_expr n s = Some (r, s') \<longrightarrow>
      precedence_of (binop_precedence s') = precedence_of (binop_precedence s))
   \<and> (\<forall>s r s'. parse_identifier_expr n s = Some (r, s') \<longrightarrow>
      precedence_of (binop_precedence s') = precedence_of (binop_precedence s))
   \<and> (\<forall>args s r s'. parse_identifier_expr_args n args s = Some (r, s') \<longrightarrow>
      precedence_of (binop_precedence s') = precedence_of (binop_precedence s))
   \<and> (\<forall>p l s r s'. parse_binop_rhs n p l s = Some (r, s') \<longrightarrow>
      precedence_of (binop_precedence s') = precedence_of (binop_precedence s))
   \<and> (\<forall>s r s'. parse_expression n s = Some (r, s') \<longrightarrow>
      precedence_of (binop_precedence s') = precedence_of (binop_precedence s))"
proof (induction n)
  case 0
  show ?case by simp
next
  case (Suc n)
  note ih_primary = Suc [THEN conjunct1, rule_format]
  note ih_paren = Suc [THEN conjunct2, THEN conjunct1, rule_format]
  note ih_ident = Suc [THEN conjunct2, THEN conjunct2, THEN conjunct1, rule_format]
  note ih_args = Suc [THEN conjunct2, THEN conjunct2, THEN conjunct2, THEN conjunct1, rule_format]
  note ih_binop = Suc [THEN conjunct2, THEN conjunct2, THEN conjunct2, THEN conjunct2,
      THEN conjunct1, rule_format]
  note ih_expr = Suc [THEN conjunct2, THEN conjunct2, THEN conjunct2, THEN conjunct2,
      THEN conjunct2, rule_format]
  have 1: "precedence_of (binop_precedence s') = precedence_of (binop_precedence s)"
    if "parse_primary (Suc n) s = Some (r, s')" for s r s'
    using that
  proof (cases rule: parse_primary_SucE)
    case ident
    then show ?thesis by (simp add: ih_ident)
  next
    case num
    then show ?thesis by simp
  next
    case paren
    then show ?thesis by (simp add: ih_paren)
  next
    case error
    then show ?thesis by simp
  qed
  have 2: "precedence_of (binop_precedence s') = precedence_of (binop_precedence s)"
    if "parse_paren_expr (Suc n) s = Some (r, s')" for s r s'
    using that
  proof (cases rule: parse_paren_expr_SucE)
    case inner_fails
    then show ?thesis using ih_expr [OF inner_fails(1)] by simp
  next
    case (error v s1)
    then show ?thesis using ih_expr [OF error(1)] by simp
  next
    case (closed v s1)
    then show ?thesis using ih_expr [OF closed(1)] by simp
  qed
  have 3: "precedence_of (binop_precedence s') = precedence_of (binop_precedence s)"
    if "parse_identifier_expr (Suc n) s = Some (r, s')" for s r s'
    using that
  proof (cases rule: parse_identifier_expr_SucE)
    case variable
    then show ?thesis by simp
  next
    case no_args
    then show ?thesis by simp
  next
    case args_fail
    then show ?thesis using ih_args [OF args_fail(3)] by simp
  next
    case (call as s3)
    then show ?thesis using ih_args [OF call(3)] by simp
  qed
  have 4: "precedence_of (binop_precedence s') = precedence_of (binop_precedence s)"
    if "parse_identifier_expr_args (Suc n) as s = Some (r, s')" for as s r s'
    using that
  proof (cases rule: parse_identifier_expr_args_SucE)
    case arg_fails
    then show ?thesis using ih_expr [OF arg_fails(1)] by simp
  next
    case (last arg)
    then show ?thesis using ih_expr [OF last(1)] by simp
  next
    case (error arg s1)
    then show ?thesis using ih_expr [OF error(1)] by simp
  next
    case (more arg s1)
    then show ?thesis using ih_expr [OF more(1)] ih_args [OF more(3)] by simp
  qed
  have 5: "precedence_of (binop_precedence s') = precedence_of (binop_precedence s)"
    if "parse_binop_rhs (Suc n) p l s = Some (r, s')" for p l s r s'
    using that
  proof (cases rule: parse_binop_rhs_SucE)
    case stop
    then show ?thesis by simp
  next
    case primary_fails
    then show ?thesis using ih_primary [OF primary_fails(2)] by simp
  next
    case (rhs_fails rhs s3)
    then show ?thesis
      using ih_primary [OF rhs_fails(2)] ih_binop [OF rhs_fails(4)] by simp
  next
    case (merge rhs s3)
    then show ?thesis
      using ih_primary [OF merge(2)] ih_binop [OF merge(4)] by simp
  next
    case (absorb rhs s3 rhs' s5)
    then show ?thesis
      using ih_primary [OF absorb(2)] ih_binop [OF absorb(4)] ih_binop [OF absorb(5)]
      by simp
  qed
  have 6: "precedence_of (binop_precedence s') = precedence_of (binop_precedence s)"
    if "parse_expression (Suc n) s = Some (r, s')" for s r s'
    using that
  proof (cases rule: parse_expression_SucE)
    case primary_fails
    then show ?thesis using ih_primary [OF primary_fails(1)] by simp
  next
    case (binop_rhs lhs s1)
    then show ?thesis
      using ih_primary [OF binop_rhs(1)] ih_binop [OF binop_rhs(2)] by simp
  qed
  show ?case
    by (intro conjI allI impI) (erule 1 2 3 4 5 6; assumption?)+
qed

text \<open>
  An operator is taken only when its precedence reaches the bound, so with a bound that
  is not negative it has a positive entry.
\<close>

lemma get_token_precedence_operator:
  assumes "\<not> fst (get_token_precedence s) < p" and "0 \<le> p"
  shows "0 < precedence_of (binop_precedence s) (char_of (current_token s))"
    and "0 \<le> fst (get_token_precedence s) + 1"
  using assms by (auto simp: fst_get_token_precedence split: if_splits)

lemma parse_operators:
  "(\<forall>s e s'. parse_primary n s = Some (Some e, s') \<longrightarrow>
      operators_from (precedence_of (binop_precedence s)) e)
   \<and> (\<forall>s e s'. parse_paren_expr n s = Some (Some e, s') \<longrightarrow>
      operators_from (precedence_of (binop_precedence s)) e)
   \<and> (\<forall>s e s'. parse_identifier_expr n s = Some (Some e, s') \<longrightarrow>
      operators_from (precedence_of (binop_precedence s)) e)
   \<and> (\<forall>args s es s'. parse_identifier_expr_args n args s = Some (Some es, s') \<longrightarrow>
      (\<forall>a \<in> set args. operators_from (precedence_of (binop_precedence s)) a) \<longrightarrow>
      (\<forall>a \<in> set es. operators_from (precedence_of (binop_precedence s)) a))
   \<and> (\<forall>p l s e s'. parse_binop_rhs n p l s = Some (Some e, s') \<longrightarrow> 0 \<le> p \<longrightarrow>
      operators_from (precedence_of (binop_precedence s)) l \<longrightarrow>
      operators_from (precedence_of (binop_precedence s)) e)
   \<and> (\<forall>s e s'. parse_expression n s = Some (Some e, s') \<longrightarrow>
      operators_from (precedence_of (binop_precedence s)) e)"
proof (induction n)
  case 0
  show ?case by simp
next
  case (Suc n)
  note ih_primary = Suc [THEN conjunct1, rule_format]
  note ih_paren = Suc [THEN conjunct2, THEN conjunct1, rule_format]
  note ih_ident = Suc [THEN conjunct2, THEN conjunct2, THEN conjunct1, rule_format]
  note ih_args = Suc [THEN conjunct2, THEN conjunct2, THEN conjunct2, THEN conjunct1, rule_format]
  note ih_binop = Suc [THEN conjunct2, THEN conjunct2, THEN conjunct2, THEN conjunct2,
      THEN conjunct1, rule_format]
  note ih_expr = Suc [THEN conjunct2, THEN conjunct2, THEN conjunct2, THEN conjunct2,
      THEN conjunct2, rule_format]
  note keep_primary = parse_keeps_precedence [of n, THEN conjunct1, rule_format]
  note keep_binop = parse_keeps_precedence [of n, THEN conjunct2, THEN conjunct2,
      THEN conjunct2, THEN conjunct2, THEN conjunct1, rule_format]
  note keep_expr = parse_keeps_precedence [of n, THEN conjunct2, THEN conjunct2,
      THEN conjunct2, THEN conjunct2, THEN conjunct2, rule_format]
  have 1: "operators_from (precedence_of (binop_precedence s)) e"
    if "parse_primary (Suc n) s = Some (Some e, s')" for s e s'
    using that
  proof (cases rule: parse_primary_SucE)
    case ident
    then show ?thesis by (simp add: ih_ident)
  next
    case num
    then show ?thesis by auto
  next
    case paren
    then show ?thesis by (simp add: ih_paren)
  next
    case error
    then show ?thesis by simp
  qed
  have 2: "operators_from (precedence_of (binop_precedence s)) e"
    if "parse_paren_expr (Suc n) s = Some (Some e, s')" for s e s'
    using that
  proof (cases rule: parse_paren_expr_SucE)
    case inner_fails
    then show ?thesis by simp
  next
    case (error v s1)
    then show ?thesis by simp
  next
    case (closed v s1)
    then show ?thesis using ih_expr [OF closed(1)] by simp
  qed
  have 3: "operators_from (precedence_of (binop_precedence s)) e"
    if "parse_identifier_expr (Suc n) s = Some (Some e, s')" for s e s'
    using that
  proof (cases rule: parse_identifier_expr_SucE)
    case variable
    then show ?thesis by auto
  next
    case no_args
    then show ?thesis by auto
  next
    case args_fail
    then show ?thesis by simp
  next
    case (call as s3)
    then show ?thesis using ih_args [OF call(3)] by auto
  qed
  have 4: "\<forall>a \<in> set es. operators_from (precedence_of (binop_precedence s)) a"
    if "parse_identifier_expr_args (Suc n) as s = Some (Some es, s')"
      "\<forall>a \<in> set as. operators_from (precedence_of (binop_precedence s)) a"
    for as s es s'
    using that(1)
  proof (cases rule: parse_identifier_expr_args_SucE)
    case arg_fails
    then show ?thesis by simp
  next
    case (last arg)
    then show ?thesis using ih_expr [OF last(1)] that(2) by auto
  next
    case (error arg s1)
    then show ?thesis by simp
  next
    case (more arg s1)
    have "\<forall>a \<in> set (as @ [arg]).
        operators_from (precedence_of (binop_precedence (get_next_token s1))) a"
      using ih_expr [OF more(1)] keep_expr [OF more(1)] that(2) by auto
    with more(3) have "\<forall>a \<in> set es.
        operators_from (precedence_of (binop_precedence (get_next_token s1))) a"
      by (blast intro: ih_args)
    then show ?thesis
      using keep_expr [OF more(1)] by simp
  qed
  have 5: "operators_from (precedence_of (binop_precedence s)) e"
    if "parse_binop_rhs (Suc n) p l s = Some (Some e, s')" "0 \<le> p"
      "operators_from (precedence_of (binop_precedence s)) l"
    for p l s e s'
    using that(1)
  proof (cases rule: parse_binop_rhs_SucE)
    case stop
    then show ?thesis using that(3) by simp
  next
    case primary_fails
    then show ?thesis by simp
  next
    case (rhs_fails rhs s3)
    then show ?thesis by simp
  next
    case (merge rhs s3)
    let ?s2 = "get_next_token (snd (get_token_precedence s))"
    have table: "precedence_of (binop_precedence (snd (get_token_precedence s3)))
        = precedence_of (binop_precedence s)"
      using keep_primary [OF merge(2)] by simp
    have "operators_from (precedence_of (binop_precedence s)) rhs"
      using ih_primary [OF merge(2)] by simp
    then have "operators_from (precedence_of (binop_precedence s))
        (binary_expr_ast (char_of (current_token (snd (get_token_precedence s)))) l rhs)"
      using get_token_precedence_operator(1) [OF merge(1) that(2)] that(3) by simp
    then show ?thesis
      using ih_binop [OF merge(4) that(2)] table by simp
  next
    case (absorb rhs s3 rhs' s5)
    have table: "precedence_of (binop_precedence (snd (get_token_precedence s3)))
        = precedence_of (binop_precedence s)"
      using keep_primary [OF absorb(2)] by simp
    have table5: "precedence_of (binop_precedence s5) = precedence_of (binop_precedence s)"
      using keep_binop [OF absorb(4)] table by simp
    have "operators_from (precedence_of (binop_precedence s)) rhs"
      using ih_primary [OF absorb(2)] by simp
    then have "operators_from (precedence_of (binop_precedence s)) rhs'"
      using ih_binop [OF absorb(4) get_token_precedence_operator(2) [OF absorb(1) that(2)]]
        table by simp
    then have "operators_from (precedence_of (binop_precedence s))
        (binary_expr_ast (char_of (current_token (snd (get_token_precedence s)))) l rhs')"
      using get_token_precedence_operator(1) [OF absorb(1) that(2)] that(3) by simp
    then show ?thesis
      using ih_binop [OF absorb(5) that(2)] table5 by simp
  qed
  have 6: "operators_from (precedence_of (binop_precedence s)) e"
    if "parse_expression (Suc n) s = Some (Some e, s')" for s e s'
    using that
  proof (cases rule: parse_expression_SucE)
    case primary_fails
    then show ?thesis by simp
  next
    case (binop_rhs lhs s1)
    then show ?thesis
      using ih_primary [OF binop_rhs(1)] keep_primary [OF binop_rhs(1)]
        ih_binop [OF binop_rhs(2)]
      by simp
  qed
  show ?case
    by (intro conjI allI impI) (erule 1 2 3 4 5 6; assumption?)+
qed

section \<open>What the lexer depends on\<close>

lemma lexer_eq_next_char: "lexer_eq s t \<Longrightarrow> lexer_eq (next_char s) (next_char t)"
  by (simp add: lexer_eq_def stdin_next_char last_char_next_char)

lemma lexer_eq_update [simp]:
  "lexer_eq (s\<lparr>identifier_str := a\<rparr>) t \<longleftrightarrow> lexer_eq s t"
  "lexer_eq s (t\<lparr>identifier_str := a\<rparr>) \<longleftrightarrow> lexer_eq s t"
  "lexer_eq (s\<lparr>numeric_value := b\<rparr>) t \<longleftrightarrow> lexer_eq s t"
  "lexer_eq s (t\<lparr>numeric_value := b\<rparr>) \<longleftrightarrow> lexer_eq s t"
  "lexer_eq (s\<lparr>current_token := c\<rparr>) t \<longleftrightarrow> lexer_eq s t"
  "lexer_eq s (t\<lparr>current_token := c\<rparr>) \<longleftrightarrow> lexer_eq s t"
  by (simp_all add: lexer_eq_def)

lemma lexer_eq_skip_whitespace:
  "lexer_eq s t \<Longrightarrow> lexer_eq (skip_whitespace s) (skip_whitespace t)"
proof (induction s arbitrary: t rule: skip_whitespace.induct)
  case (1 s)
  have same: "last_char t = last_char s"
    using "1.prems" by (simp add: lexer_eq_def)
  show ?case
  proof (cases "isspace (last_char s)")
    case True
    then have "lexer_eq (skip_whitespace (next_char s)) (skip_whitespace (next_char t))"
      using "1.prems" by (intro "1.IH" lexer_eq_next_char)
    with True show ?thesis
      by (simp add: skip_whitespace.simps [of s] skip_whitespace.simps [of t] same)
  next
    case False
    with "1.prems" show ?thesis
      by (simp add: skip_whitespace.simps [of s] skip_whitespace.simps [of t] same)
  qed
qed

lemma lexer_eq_read_identifier:
  "lexer_eq s t \<Longrightarrow> identifier_str s = identifier_str t \<Longrightarrow>
   lexer_eq (read_identifier s) (read_identifier t)
   \<and> identifier_str (read_identifier s) = identifier_str (read_identifier t)"
proof (induction s arbitrary: t rule: read_identifier.induct)
  case (1 s)
  let ?s1 = "next_char s" and ?t1 = "next_char t"
  have step: "lexer_eq ?s1 ?t1"
    using "1.prems"(1) by (rule lexer_eq_next_char)
  from step have same: "last_char ?t1 = last_char ?s1"
    by (simp add: lexer_eq_def)
  have ident: "identifier_str ?t1 = identifier_str ?s1"
    using "1.prems"(2) by (simp add: next_char_def getchar_def split: list.split)
  show ?case
  proof (cases "isalnum (last_char ?s1)")
    case True
    let ?s2 = "?s1\<lparr>identifier_str := identifier_str ?s1 @ [char_of (last_char ?s1)]\<rparr>"
    let ?t2 = "?t1\<lparr>identifier_str := identifier_str ?s1 @ [char_of (last_char ?s1)]\<rparr>"
    have "lexer_eq (read_identifier ?s2) (read_identifier ?t2)
        \<and> identifier_str (read_identifier ?s2) = identifier_str (read_identifier ?t2)"
      using True step by (intro "1.IH") simp_all
    with True show ?thesis
      by (simp add: read_identifier.simps [of s] read_identifier.simps [of t] Let_def
          same ident)
  next
    case False
    with step show ?thesis
      by (simp add: read_identifier.simps [of s] read_identifier.simps [of t] Let_def
          same ident)
  qed
qed

lemma lexer_eq_read_number:
  "lexer_eq s t \<Longrightarrow>
   fst (read_number numeric_str s) = fst (read_number numeric_str t)
   \<and> lexer_eq (snd (read_number numeric_str s)) (snd (read_number numeric_str t))"
proof (induction numeric_str s arbitrary: t rule: read_number.induct)
  case (1 numeric_str s)
  let ?s1 = "next_char s" and ?t1 = "next_char t"
  have same0: "last_char t = last_char s"
    using "1.prems" by (simp add: lexer_eq_def)
  have step: "lexer_eq ?s1 ?t1"
    using "1.prems" by (rule lexer_eq_next_char)
  from step have same: "last_char ?t1 = last_char ?s1"
    by (simp add: lexer_eq_def)
  show ?case
  proof (cases "isdigit (last_char ?s1) \<or> last_char ?s1 = 46")
    case True
    let ?str = "numeric_str @ [char_of (last_char s)]"
    have "fst (read_number ?str ?s1) = fst (read_number ?str ?t1)
        \<and> lexer_eq (snd (read_number ?str ?s1)) (snd (read_number ?str ?t1))"
      using True step by (intro "1.IH") simp_all
    with True show ?thesis
      by (simp add: read_number.simps [of numeric_str s] read_number.simps [of numeric_str t]
          Let_def same same0)
  next
    case False
    with step show ?thesis
      by (simp add: read_number.simps [of numeric_str s] read_number.simps [of numeric_str t]
          Let_def same same0)
  qed
qed

lemma lexer_eq_skip_comment:
  "lexer_eq s t \<Longrightarrow> lexer_eq (skip_comment s) (skip_comment t)"
proof (induction s arbitrary: t rule: skip_comment.induct)
  case (1 s)
  let ?s1 = "next_char s" and ?t1 = "next_char t"
  have step: "lexer_eq ?s1 ?t1"
    using "1.prems" by (rule lexer_eq_next_char)
  from step have same: "last_char ?t1 = last_char ?s1"
    by (simp add: lexer_eq_def)
  show ?case
  proof (cases "last_char ?s1 \<noteq> EOF \<and> last_char ?s1 \<noteq> 10 \<and> last_char ?s1 \<noteq> 13")
    case True
    then have "lexer_eq (skip_comment ?s1) (skip_comment ?t1)"
      using step by (intro "1.IH") simp_all
    with True show ?thesis
      by (simp add: skip_comment.simps [of s] skip_comment.simps [of t] Let_def same)
  next
    case False
    with step show ?thesis
      by (auto simp: skip_comment.simps [of s] skip_comment.simps [of t] Let_def same)
  qed
qed

text \<open>The look-ahead character is a byte or \<^verbatim>\<open>EOF\<close>, so it is no token code below \<open>-1\<close>.\<close>

lemma last_char_next_char_ge: "- 1 \<le> last_char (next_char s)"
proof (cases "stdin s")
  case Nil
  then show ?thesis
    by (simp add: last_char_next_char)
next
  case (Cons c cs)
  then show ?thesis
    using of_char_range [of c] by (simp add: last_char_next_char)
qed

lemma last_char_skip_whitespace_ge:
  "- 1 \<le> last_char s \<Longrightarrow> - 1 \<le> last_char (skip_whitespace s)"
proof (induction s rule: skip_whitespace.induct)
  case (1 s)
  then show ?case
    by (cases "isspace (last_char s)")
      (simp_all add: skip_whitespace.simps [of s] last_char_next_char_ge)
qed

lemma last_char_read_identifier_ge: "- 1 \<le> last_char (read_identifier s)"
proof (induction s rule: read_identifier.induct)
  case (1 s)
  then show ?case
    by (cases "isalnum (last_char (next_char s))")
      (simp_all add: read_identifier.simps [of s] Let_def last_char_next_char_ge)
qed

lemma last_char_read_number_ge: "- 1 \<le> last_char (snd (read_number numeric_str s))"
proof (induction numeric_str s rule: read_number.induct)
  case (1 numeric_str s)
  then show ?case
    by (cases "isdigit (last_char (next_char s)) \<or> last_char (next_char s) = 46")
      (simp_all add: read_number.simps [of numeric_str s] Let_def last_char_next_char_ge)
qed

lemma last_char_skip_comment_ge: "- 1 \<le> last_char (skip_comment s)"
proof (induction s rule: skip_comment.induct)
  case (1 s)
  let ?s1 = "next_char s"
  show ?case
  proof (cases "last_char ?s1 \<noteq> EOF \<and> last_char ?s1 \<noteq> 10 \<and> last_char ?s1 \<noteq> 13")
    case True
    with 1 show ?thesis
      by (simp add: skip_comment.simps [of s] Let_def)
  next
    case False
    then show ?thesis
      by (auto simp: skip_comment.simps [of s] Let_def last_char_next_char_ge)
  qed
qed

text \<open>
  The four ways through \<^verbatim>\<open>get_token\<close> after the white space, as equations.
\<close>

lemma get_token_identifier:
  assumes "s = skip_whitespace s0" and "isalpha (last_char s)"
  shows "get_token s0 =
    (let s1 = read_identifier (s\<lparr>identifier_str := [char_of (last_char s)]\<rparr>) in
     if identifier_str s1 = ''def'' then (tok_def, s1)
     else if identifier_str s1 = ''extern'' then (tok_extern, s1)
     else (tok_identifier, s1))"
  using assms by (simp add: get_token.simps [of s0] Let_def)

lemma get_token_number:
  assumes "s = skip_whitespace s0" and "\<not> isalpha (last_char s)"
    and "isdigit (last_char s) \<or> last_char s = 46"
  shows "get_token s0 =
    (tok_number,
     (snd (read_number [] s))\<lparr>numeric_value := strtod (fst (read_number [] s))\<rparr>)"
  using assms by (simp add: get_token.simps [of s0] Let_def case_prod_beta)

lemma get_token_comment:
  assumes "s = skip_whitespace s0" and "\<not> isalpha (last_char s)"
    and "\<not> (isdigit (last_char s) \<or> last_char s = 46)"
    and "last_char s = 35 \<and> last_char (skip_comment s) \<noteq> EOF"
  shows "get_token s0 = get_token (skip_comment s)"
  using assms by (simp add: get_token.simps [of s0] Let_def)

lemma get_token_other:
  assumes "s = skip_whitespace s0" and "\<not> isalpha (last_char s)"
    and "\<not> (isdigit (last_char s) \<or> last_char s = 46)"
    and "\<not> (last_char s = 35 \<and> last_char (skip_comment s) \<noteq> EOF)"
    and "s1 = (if last_char s = 35 then skip_comment s else s)"
  shows "get_token s0 =
    (if last_char s1 = EOF then (tok_eof, s1) else (last_char s1, next_char s1))"
  using assms by (auto simp: get_token.simps [of s0] Let_def)

lemma last_char_get_token_ge: "- 1 \<le> last_char (snd (get_token s0))"
proof (induction s0 rule: get_token.induct)
  case (1 s0)
  define s where "s = skip_whitespace s0"
  consider (ident) "isalpha (last_char s)"
    | (number) "\<not> isalpha (last_char s)" "isdigit (last_char s) \<or> last_char s = 46"
    | (comment) "\<not> isalpha (last_char s)" "\<not> (isdigit (last_char s) \<or> last_char s = 46)"
        "last_char s = 35 \<and> last_char (skip_comment s) \<noteq> EOF"
    | (other) "\<not> isalpha (last_char s)" "\<not> (isdigit (last_char s) \<or> last_char s = 46)"
        "\<not> (last_char s = 35 \<and> last_char (skip_comment s) \<noteq> EOF)"
    by blast
  then show ?case
  proof cases
    case ident
    show ?thesis
      unfolding get_token_identifier [OF s_def ident]
      by (simp add: Let_def last_char_read_identifier_ge)
  next
    case number
    show ?thesis
      unfolding get_token_number [OF s_def number]
      by (simp add: last_char_read_number_ge)
  next
    case comment
    show ?thesis
      unfolding get_token_comment [OF s_def comment]
      by (rule "1.IH" [OF s_def comment])
  next
    case other
    define s1 where "s1 = (if last_char s = 35 then skip_comment s else s)"
    show ?thesis
      unfolding get_token_other [OF s_def other s1_def]
      by (simp add: last_char_next_char_ge)
  qed
qed

lemma lexer_eq_get_token:
  "lexer_eq s0 t0 \<Longrightarrow> - 1 \<le> last_char s0 \<Longrightarrow>
   fst (get_token s0) = fst (get_token t0)
   \<and> lexer_eq (snd (get_token s0)) (snd (get_token t0))
   \<and> token_of (fst (get_token s0)) (snd (get_token s0))
       = token_of (fst (get_token t0)) (snd (get_token t0))"
proof (induction s0 arbitrary: t0 rule: get_token.induct)
  case (1 s0)
  define s where "s = skip_whitespace s0"
  define t where "t = skip_whitespace t0"
  have eq: "lexer_eq s t"
    unfolding s_def t_def using "1.prems"(1) by (rule lexer_eq_skip_whitespace)
  then have same: "last_char t = last_char s"
    by (simp add: lexer_eq_def)
  have valid: "- 1 \<le> last_char s"
    unfolding s_def using "1.prems"(2) by (rule last_char_skip_whitespace_ge)
  have comment_eq: "lexer_eq (skip_comment s) (skip_comment t)"
    using eq by (rule lexer_eq_skip_comment)
  then have same_comment: "last_char (skip_comment t) = last_char (skip_comment s)"
    by (simp add: lexer_eq_def)
  consider (ident) "isalpha (last_char s)"
    | (number) "\<not> isalpha (last_char s)" "isdigit (last_char s) \<or> last_char s = 46"
    | (comment) "\<not> isalpha (last_char s)" "\<not> (isdigit (last_char s) \<or> last_char s = 46)"
        "last_char s = 35 \<and> last_char (skip_comment s) \<noteq> EOF"
    | (other) "\<not> isalpha (last_char s)" "\<not> (isdigit (last_char s) \<or> last_char s = 46)"
        "\<not> (last_char s = 35 \<and> last_char (skip_comment s) \<noteq> EOF)"
    by blast
  then show ?case
  proof cases
    case ident
    let ?s1 = "read_identifier (s\<lparr>identifier_str := [char_of (last_char s)]\<rparr>)"
    let ?t1 = "read_identifier (t\<lparr>identifier_str := [char_of (last_char s)]\<rparr>)"
    have "lexer_eq ?s1 ?t1 \<and> identifier_str ?s1 = identifier_str ?t1"
      using eq by (intro lexer_eq_read_identifier) simp_all
    then show ?thesis
      unfolding get_token_identifier [OF s_def ident]
        get_token_identifier [OF t_def ident [folded same]]
      by (simp add: Let_def same token_of_def)
  next
    case number
    have "fst (read_number [] s) = fst (read_number [] t)
        \<and> lexer_eq (snd (read_number [] s)) (snd (read_number [] t))"
      using eq by (rule lexer_eq_read_number)
    then show ?thesis
      unfolding get_token_number [OF s_def number]
        get_token_number [OF t_def number [folded same]]
      by (simp add: token_of_def)
  next
    case comment
    have t_eq: "get_token t0 = get_token (skip_comment t)"
      using comment by (intro get_token_comment [OF t_def]) (simp_all add: same same_comment)
    show ?thesis
      unfolding get_token_comment [OF s_def comment] t_eq
      by (rule "1.IH" [OF s_def comment comment_eq last_char_skip_comment_ge])
  next
    case other
    define s1 where "s1 = (if last_char s = 35 then skip_comment s else s)"
    define t1 where "t1 = (if last_char t = 35 then skip_comment t else t)"
    have eq1: "lexer_eq s1 t1"
      using eq comment_eq by (simp add: s1_def t1_def same)
    then have same1: "last_char t1 = last_char s1"
      by (simp add: lexer_eq_def)
    have valid1: "- 1 \<le> last_char s1"
      using valid last_char_skip_comment_ge [of s] by (simp add: s1_def)
    have t_eq: "get_token t0 =
        (if last_char t1 = EOF then (tok_eof, t1) else (last_char t1, next_char t1))"
      using other by (intro get_token_other [OF t_def _ _ _ t1_def])
        (simp_all add: same same_comment)
    show ?thesis
      unfolding get_token_other [OF s_def other s1_def] t_eq same1
      using eq1 valid1 by (auto simp: token_of_def lexer_eq_next_char)
  qed
qed

lemma lexer_eq_tokenize:
  "lexer_eq s t \<Longrightarrow> - 1 \<le> last_char s \<Longrightarrow>
   fst (tokenize s) = fst (tokenize t) \<and> lexer_eq (snd (tokenize s)) (snd (tokenize t))"
proof (induction s arbitrary: t rule: tokenize.induct)
  case (1 s)
  obtain c s1 where s: "get_token s = (c, s1)"
    by (cases "get_token s")
  obtain d t1 where t: "get_token t = (d, t1)"
    by (cases "get_token t")
  have same: "d = c" "lexer_eq s1 t1" "token_of c s1 = token_of d t1"
    using lexer_eq_get_token [OF "1.prems"] by (auto simp: s t)
  show ?case
  proof (cases "c = tok_eof")
    case True
    with same show ?thesis
      by (simp add: tokenize.simps [of s] tokenize.simps [of t] s t)
  next
    case False
    have "- 1 \<le> last_char s1"
      using last_char_get_token_ge [of s] by (simp add: s)
    with same(2) have "fst (tokenize s1) = fst (tokenize t1)
        \<and> lexer_eq (snd (tokenize s1)) (snd (tokenize t1))"
      by (intro "1.IH" [OF refl s [symmetric] False])
    with False same show ?thesis
      by (simp add: tokenize.simps [of s] tokenize.simps [of t] s t case_prod_beta)
  qed
qed

text \<open>A run ends with the look-ahead character at \<^verbatim>\<open>EOF\<close>, and there it stays.\<close>

lemma get_token_eof_last_char:
  "fst (get_token s0) = tok_eof \<Longrightarrow> last_char (snd (get_token s0)) = EOF"
proof (induction s0 rule: get_token.induct)
  case (1 s0)
  define s where "s = skip_whitespace s0"
  consider (ident) "isalpha (last_char s)"
    | (number) "\<not> isalpha (last_char s)" "isdigit (last_char s) \<or> last_char s = 46"
    | (comment) "\<not> isalpha (last_char s)" "\<not> (isdigit (last_char s) \<or> last_char s = 46)"
        "last_char s = 35 \<and> last_char (skip_comment s) \<noteq> EOF"
    | (other) "\<not> isalpha (last_char s)" "\<not> (isdigit (last_char s) \<or> last_char s = 46)"
        "\<not> (last_char s = 35 \<and> last_char (skip_comment s) \<noteq> EOF)"
    by blast
  then show ?case
  proof cases
    case ident
    with "1.prems" show ?thesis
      by (simp add: get_token_identifier [OF s_def ident] Let_def split: if_splits)
  next
    case number
    with "1.prems" show ?thesis
      by (simp add: get_token_number [OF s_def number])
  next
    case comment
    show ?thesis
      using "1.prems" "1.IH" [OF s_def comment]
      by (simp add: get_token_comment [OF s_def comment])
  next
    case other
    define s1 where "s1 = (if last_char s = 35 then skip_comment s else s)"
    show ?thesis
      using "1.prems"
      by (simp add: get_token_other [OF s_def other s1_def] split: if_splits)
  qed
qed

lemma last_char_tokenize: "last_char (snd (tokenize s)) = EOF"
proof (induction s rule: tokenize.induct)
  case (1 s)
  obtain c s1 where s: "get_token s = (c, s1)"
    by (cases "get_token s")
  show ?case
  proof (cases "c = tok_eof")
    case True
    then show ?thesis
      using get_token_eof_last_char [of s]
      by (simp add: tokenize.simps [of s] s)
  next
    case False
    then show ?thesis
      using "1.IH" [OF refl s [symmetric] False]
      by (simp add: tokenize.simps [of s] s case_prod_beta)
  qed
qed

lemma get_token_at_EOF: "last_char s = EOF \<Longrightarrow> get_token s = (tok_eof, s)"
proof -
  assume eof: "last_char s = EOF"
  then have ws: "skip_whitespace s = s"
    by (simp add: skip_whitespace.simps [of s] isspace_def)
  show ?thesis
    by (rule trans [OF get_token_other [of s s s]])
      (simp_all add: ws eof isalpha_def isdigit_def)
qed

lemma tokenize_at_EOF: "last_char s = EOF \<Longrightarrow> tokenize s = ([Tok_eof], s)"
  by (simp add: tokenize.simps [of s] get_token_at_EOF token_of_def)

section \<open>Parameter lists and the token sequence\<close>

lemma token_of_update [simp]:
  "token_of c (s\<lparr>current_token := t\<rparr>) = token_of c s"
  by (simp add: token_of_def)

lemma tokenize_get_next_token:
  "fst (tokenize (get_next_token s)) = fst (tokenize (snd (get_token s)))"
proof -
  have "lexer_eq (get_next_token s) (snd (get_token s))"
    by (simp add: get_next_token_def case_prod_beta lexer_eq_def)
  moreover have "- 1 \<le> last_char (get_next_token s)"
    using last_char_get_token_ge [of s] by (simp add: get_next_token_def case_prod_beta)
  ultimately show ?thesis
    using lexer_eq_tokenize by blast
qed

lemma tokenize_step:
  "fst (tokenize s) =
     token_of (current_token (get_next_token s)) (get_next_token s)
       # (if current_token (get_next_token s) = tok_eof then []
          else fst (tokenize (get_next_token s)))"
  unfolding tokenize_get_next_token
  by (simp add: tokenize.simps [of s] get_next_token_def case_prod_beta)

lemma read_arg_names_tokens:
  "fst (read_arg_names arg_names s) = arg_names @ leading_identifiers (fst (tokenize s))
   \<and> token_of (current_token (snd (read_arg_names arg_names s)))
         (snd (read_arg_names arg_names s))
       = hd (after_identifiers (fst (tokenize s)))"
proof (induction arg_names s rule: read_arg_names.induct)
  case (1 arg_names s)
  let ?s1 = "get_next_token s"
  show ?case
  proof (cases "current_token ?s1 = tok_identifier")
    case True
    then have "fst (tokenize s) = Tok_identifier (identifier_str ?s1) # fst (tokenize ?s1)"
      by (simp add: tokenize_step [of s] token_of_def)
    with True "1.IH" [OF refl True] show ?thesis
      by (simp add: read_arg_names.simps [of arg_names s] Let_def)
  next
    case False
    then have "\<exists>ts. after_identifiers (fst (tokenize s))
          = token_of (current_token ?s1) ?s1 # ts
        \<and> leading_identifiers (fst (tokenize s)) = []"
      by (simp add: tokenize_step [of s] token_of_def)
    with False show ?thesis
      by (auto simp: read_arg_names.simps [of arg_names s] Let_def)
  qed
qed

section \<open>The token stream before the parser\<close>

lemma stream_get_next_token: "stream (get_next_token s) = fst (tokenize s)"
  unfolding stream_def by (rule tokenize_step [symmetric])

lemma stream_consume:
  "current_token s \<noteq> tok_eof \<Longrightarrow>
   stream s = token_of (current_token s) s # stream (get_next_token s)"
  unfolding stream_get_next_token by (simp add: stream_def)

text \<open>The lexer does not look at the precedence table.\<close>

lemma next_char_table:
  "next_char (s\<lparr>binop_precedence := m\<rparr>) = (next_char s)\<lparr>binop_precedence := m\<rparr>"
  by (simp add: next_char_def getchar_def split: list.split)

lemma skip_whitespace_table:
  "skip_whitespace (s\<lparr>binop_precedence := m\<rparr>) = (skip_whitespace s)\<lparr>binop_precedence := m\<rparr>"
proof (induction s rule: skip_whitespace.induct)
  case (1 s)
  then show ?case
    by (simp add: skip_whitespace.simps [of s]
        skip_whitespace.simps [of "s\<lparr>binop_precedence := m\<rparr>"] next_char_table)
qed

lemma read_identifier_table:
  "read_identifier (s\<lparr>binop_precedence := m\<rparr>) = (read_identifier s)\<lparr>binop_precedence := m\<rparr>"
proof (induction s rule: read_identifier.induct)
  case (1 s)
  let ?s1 = "next_char s"
  show ?case
  proof (cases "isalnum (last_char ?s1)")
    case True
    let ?s2 = "?s1\<lparr>identifier_str := identifier_str ?s1 @ [char_of (last_char ?s1)]\<rparr>"
    have "read_identifier (s\<lparr>binop_precedence := m\<rparr>)
        = read_identifier ((?s1\<lparr>binop_precedence := m\<rparr>)
            \<lparr>identifier_str := identifier_str ?s1 @ [char_of (last_char ?s1)]\<rparr>)"
      using True
      by (simp add: read_identifier.simps [of "s\<lparr>binop_precedence := m\<rparr>"] Let_def
          next_char_table)
    also have "(?s1\<lparr>binop_precedence := m\<rparr>)
            \<lparr>identifier_str := identifier_str ?s1 @ [char_of (last_char ?s1)]\<rparr>
        = ?s2\<lparr>binop_precedence := m\<rparr>"
      by simp
    also have "read_identifier (?s2\<lparr>binop_precedence := m\<rparr>)
        = (read_identifier ?s2)\<lparr>binop_precedence := m\<rparr>"
      by (rule "1.IH" [OF refl True])
    also have "read_identifier ?s2 = read_identifier s"
      using True by (simp add: read_identifier.simps [of s] Let_def)
    finally show ?thesis .
  next
    case False
    then show ?thesis
      by (simp add: read_identifier.simps [of s]
          read_identifier.simps [of "s\<lparr>binop_precedence := m\<rparr>"] Let_def next_char_table)
  qed
qed

lemma read_number_table:
  "read_number numeric_str (s\<lparr>binop_precedence := m\<rparr>)
     = (fst (read_number numeric_str s), (snd (read_number numeric_str s))\<lparr>binop_precedence := m\<rparr>)"
proof (induction numeric_str s rule: read_number.induct)
  case (1 numeric_str s)
  let ?s1 = "next_char s"
  show ?case
  proof (cases "isdigit (last_char ?s1) \<or> last_char ?s1 = 46")
    case True
    then show ?thesis
      using "1.IH" [OF refl refl True]
      by (simp add: read_number.simps [of numeric_str s]
          read_number.simps [of numeric_str "s\<lparr>binop_precedence := m\<rparr>"] Let_def
          next_char_table)
  next
    case False
    then show ?thesis
      by (simp add: read_number.simps [of numeric_str s]
          read_number.simps [of numeric_str "s\<lparr>binop_precedence := m\<rparr>"] Let_def
          next_char_table)
  qed
qed

lemma skip_comment_table:
  "skip_comment (s\<lparr>binop_precedence := m\<rparr>) = (skip_comment s)\<lparr>binop_precedence := m\<rparr>"
proof (induction s rule: skip_comment.induct)
  case (1 s)
  let ?s1 = "next_char s"
  show ?case
  proof (cases "last_char ?s1 \<noteq> EOF \<and> last_char ?s1 \<noteq> 10 \<and> last_char ?s1 \<noteq> 13")
    case True
    then show ?thesis
      using "1.IH" [OF refl True]
      by (simp add: skip_comment.simps [of s]
          skip_comment.simps [of "s\<lparr>binop_precedence := m\<rparr>"] Let_def next_char_table)
  next
    case False
    then show ?thesis
      by (auto simp: skip_comment.simps [of s]
          skip_comment.simps [of "s\<lparr>binop_precedence := m\<rparr>"] Let_def next_char_table)
  qed
qed

lemma get_token_table:
  "get_token (s0\<lparr>binop_precedence := m\<rparr>)
     = (fst (get_token s0), (snd (get_token s0))\<lparr>binop_precedence := m\<rparr>)"
proof (induction s0 rule: get_token.induct)
  case (1 s0)
  define s where "s = skip_whitespace s0"
  define t0 where "t0 = s0\<lparr>binop_precedence := m\<rparr>"
  define t where "t = s\<lparr>binop_precedence := m\<rparr>"
  have t: "t = skip_whitespace t0"
    by (simp add: t_def t0_def s_def skip_whitespace_table)
  have same: "last_char t = last_char s"
    by (simp add: t_def)
  have comment: "skip_comment t = (skip_comment s)\<lparr>binop_precedence := m\<rparr>"
    by (simp add: t_def skip_comment_table)
  consider (ident) "isalpha (last_char s)"
    | (number) "\<not> isalpha (last_char s)" "isdigit (last_char s) \<or> last_char s = 46"
    | (comment) "\<not> isalpha (last_char s)" "\<not> (isdigit (last_char s) \<or> last_char s = 46)"
        "last_char s = 35 \<and> last_char (skip_comment s) \<noteq> EOF"
    | (other) "\<not> isalpha (last_char s)" "\<not> (isdigit (last_char s) \<or> last_char s = 46)"
        "\<not> (last_char s = 35 \<and> last_char (skip_comment s) \<noteq> EOF)"
    by blast
  then show ?case
  proof cases
    case ident
    have upd: "t\<lparr>identifier_str := [char_of (last_char s)]\<rparr>
        = (s\<lparr>identifier_str := [char_of (last_char s)]\<rparr>)\<lparr>binop_precedence := m\<rparr>"
      by (simp add: t_def)
    show ?thesis
      unfolding t0_def [symmetric] get_token_identifier [OF s_def ident]
        get_token_identifier [OF t ident [folded same]] same upd read_identifier_table
      by (simp add: Let_def)
  next
    case number
    show ?thesis
      unfolding t0_def [symmetric] get_token_number [OF s_def number]
        get_token_number [OF t number [folded same]]
      by (simp add: t_def read_number_table)
  next
    case comment
    have t_eq: "get_token t0 = get_token (skip_comment t)"
      using comment by (intro get_token_comment [OF t]) (simp_all add: same \<open>skip_comment t = _\<close>)
    show ?thesis
      unfolding t0_def [symmetric] get_token_comment [OF s_def comment] t_eq
      using "1.IH" [OF s_def comment] by (simp add: \<open>skip_comment t = _\<close>)
  next
    case other
    define s1 where "s1 = (if last_char s = 35 then skip_comment s else s)"
    define t1 where "t1 = (if last_char t = 35 then skip_comment t else t)"
    have t1: "t1 = s1\<lparr>binop_precedence := m\<rparr>"
      by (simp add: t1_def s1_def same \<open>skip_comment t = _\<close>) (simp add: t_def)
    have t_eq: "get_token t0 =
        (if last_char t1 = EOF then (tok_eof, t1) else (last_char t1, next_char t1))"
      using other by (intro get_token_other [OF t _ _ _ t1_def])
        (simp_all add: same \<open>skip_comment t = _\<close>)
    show ?thesis
      unfolding t0_def [symmetric] get_token_other [OF s_def other s1_def] t_eq
      by (simp add: t1 next_char_table)
  qed
qed

lemma tokenize_table:
  "fst (tokenize (s\<lparr>binop_precedence := m\<rparr>)) = fst (tokenize s)"
proof (induction s rule: tokenize.induct)
  case (1 s)
  obtain c s1 where s: "get_token s = (c, s1)"
    by (cases "get_token s")
  then have t: "get_token (s\<lparr>binop_precedence := m\<rparr>) = (c, s1\<lparr>binop_precedence := m\<rparr>)"
    by (simp add: get_token_table)
  show ?case
  proof (cases "c = tok_eof")
    case True
    then show ?thesis
      by (simp add: tokenize.simps [of s] tokenize.simps [of "s\<lparr>binop_precedence := m\<rparr>"]
          s t token_of_def)
  next
    case False
    then show ?thesis
      using "1.IH" [OF refl s [symmetric] False]
      by (simp add: tokenize.simps [of s] tokenize.simps [of "s\<lparr>binop_precedence := m\<rparr>"]
          s t token_of_def case_prod_beta)
  qed
qed

lemma stream_table: "stream (s\<lparr>binop_precedence := m\<rparr>) = stream s"
  by (simp add: stream_def tokenize_table token_of_def)

lemma stream_get_token_precedence [simp]:
  "stream (snd (get_token_precedence s)) = stream s"
proof -
  have "snd (get_token_precedence s) = s
      \<or> (\<exists>m. snd (get_token_precedence s) = s\<lparr>binop_precedence := m\<rparr>)"
    by (auto simp: get_token_precedence_def binop_precedence_at_def Let_def
        split: option.split)
  then show ?thesis
    by (auto simp: stream_table)
qed

subsection \<open>Sentences of the grammar\<close>

lemma parsedI: "stream s = ts @ stream s' \<Longrightarrow> G ts \<Longrightarrow> parsed G s s'"
  unfolding parsed_def by blast

lemma binoprhs_tokens_append_aux:
  "primary_tokens prec p \<Longrightarrow> True"
  "expression_tokens prec e \<Longrightarrow> True"
  "binoprhs_tokens prec r \<Longrightarrow> binoprhs_tokens prec r' \<Longrightarrow> binoprhs_tokens prec (r @ r')"
  "arguments_tokens prec as \<Longrightarrow> True"
proof (induction rule: primary_tokens_expression_tokens_binoprhs_tokens_arguments_tokens.inducts)
  case (operator c p r)
  then show ?case
    using primary_tokens_expression_tokens_binoprhs_tokens_arguments_tokens.operator
      [of c prec p "r @ r'"]
    by simp
qed simp_all

lemmas binoprhs_tokens_append = binoprhs_tokens_append_aux(3)

lemma token_of_char: "0 \<le> c \<Longrightarrow> token_of c s = Tok_char c"
  by (simp add: token_of_def)

lemma stream_char:
  "current_token s = c \<Longrightarrow> 0 \<le> c \<Longrightarrow> stream s = Tok_char c # stream (get_next_token s)"
  using stream_consume [of s] by (auto simp: token_of_char)

lemma stream_identifier:
  "current_token s = tok_identifier \<Longrightarrow>
   stream s = Tok_identifier (identifier_str s) # stream (get_next_token s)"
  using stream_consume [of s] by (simp add: token_of_def)

lemma stream_number:
  "current_token s = tok_number \<Longrightarrow>
   stream s = Tok_number (numeric_value s) # stream (get_next_token s)"
  using stream_consume [of s] by (simp add: token_of_def)

text \<open>The loop of \<^verbatim>\<open>parse_prototype\<close> takes the identifier tokens that come next.\<close>

lemma read_arg_names_stream:
  "\<exists>names. fst (read_arg_names arg_names s) = arg_names @ names
     \<and> fst (tokenize s) = map Tok_identifier names @ stream (snd (read_arg_names arg_names s))"
proof (induction arg_names s rule: read_arg_names.induct)
  case (1 arg_names s)
  let ?s1 = "get_next_token s"
  show ?case
  proof (cases "current_token ?s1 = tok_identifier")
    case True
    from "1.IH" [OF refl True] obtain names
      where names: "fst (read_arg_names (arg_names @ [identifier_str ?s1]) ?s1)
          = (arg_names @ [identifier_str ?s1]) @ names"
        "fst (tokenize ?s1) = map Tok_identifier names
          @ stream (snd (read_arg_names (arg_names @ [identifier_str ?s1]) ?s1))"
      by blast
    have "fst (tokenize s) = Tok_identifier (identifier_str ?s1) # fst (tokenize ?s1)"
      using stream_identifier [OF True]
      by (simp add: stream_get_next_token)
    with names True show ?thesis
      by (intro exI [of _ "identifier_str ?s1 # names"])
        (simp add: read_arg_names.simps [of arg_names s] Let_def)
  next
    case False
    then show ?thesis
      by (intro exI [of _ "[]"])
        (simp add: read_arg_names.simps [of arg_names s] Let_def stream_get_next_token)
  qed
qed

lemma parse_prototype_stream:
  assumes "fst (parse_prototype s) = Some (prototype_ast fn_name arg_names)"
  shows "stream s = prototype_tokens fn_name arg_names @ stream (snd (parse_prototype s))"
proof -
  define s1 where "s1 = get_next_token s"
  define s2 where "s2 = snd (read_arg_names [] s1)"
  from assms have facts: "current_token s = tok_identifier" "current_token s1 = 40"
    "current_token s2 = 41" "fn_name = identifier_str s"
    "arg_names = fst (read_arg_names [] s1)" "snd (parse_prototype s) = get_next_token s2"
    by (simp_all add: parse_prototype_def Let_def case_prod_beta s1_def [symmetric]
        s2_def [symmetric] split: if_splits)
  obtain names where "fst (read_arg_names [] s1) = [] @ names"
    and "fst (tokenize s1) = map Tok_identifier names @ stream s2"
    using read_arg_names_stream [of "[]" s1] unfolding s2_def by blast
  with facts(5) have loop: "stream (get_next_token s1) = map Tok_identifier arg_names @ stream s2"
    by (simp add: stream_get_next_token)
  have name: "stream s = Tok_identifier fn_name # stream s1"
    using stream_identifier [OF facts(1)] by (simp add: facts(4) s1_def)
  have lparen: "stream s1 = Tok_char 40 # stream (get_next_token s1)"
    using facts(2) by (intro stream_char) simp_all
  have rparen: "stream s2 = Tok_char 41 # stream (get_next_token s2)"
    using facts(3) by (intro stream_char) simp_all
  show ?thesis
    by (simp add: name lparen loop rparen prototype_tokens_def facts(6))
qed

section \<open>What is parsed is a sentence of the grammar\<close>

lemma get_token_precedence_ascii:
  assumes "\<not> fst (get_token_precedence s) < p" and "0 \<le> p"
  shows "isascii (current_token s)"
  using assms by (auto simp: fst_get_token_precedence split: if_splits)

lemma parse_grammar:
  "(\<forall>s e s'. parse_primary n s = Some (Some e, s') \<longrightarrow>
      parsed (primary_tokens (precedence_of (binop_precedence s))) s s')
   \<and> (\<forall>s e s'. parse_paren_expr n s = Some (Some e, s') \<longrightarrow> current_token s = 40 \<longrightarrow>
      parsed (primary_tokens (precedence_of (binop_precedence s))) s s')
   \<and> (\<forall>s e s'. parse_identifier_expr n s = Some (Some e, s') \<longrightarrow>
      current_token s = tok_identifier \<longrightarrow>
      parsed (primary_tokens (precedence_of (binop_precedence s))) s s')
   \<and> (\<forall>args s es s'. parse_identifier_expr_args n args s = Some (Some es, s') \<longrightarrow>
      parsed (arguments_tokens (precedence_of (binop_precedence s))) s s'
      \<and> current_token s' = 41)
   \<and> (\<forall>p l s e s'. parse_binop_rhs n p l s = Some (Some e, s') \<longrightarrow> 0 \<le> p \<longrightarrow>
      parsed (binoprhs_tokens (precedence_of (binop_precedence s))) s s')
   \<and> (\<forall>s e s'. parse_expression n s = Some (Some e, s') \<longrightarrow>
      parsed (expression_tokens (precedence_of (binop_precedence s))) s s')"
proof (induction n)
  case 0
  show ?case by simp
next
  case (Suc n)
  note ih_primary = Suc [THEN conjunct1, rule_format]
  note ih_paren = Suc [THEN conjunct2, THEN conjunct1, rule_format]
  note ih_ident = Suc [THEN conjunct2, THEN conjunct2, THEN conjunct1, rule_format]
  note ih_args = Suc [THEN conjunct2, THEN conjunct2, THEN conjunct2, THEN conjunct1, rule_format]
  note ih_binop = Suc [THEN conjunct2, THEN conjunct2, THEN conjunct2, THEN conjunct2,
      THEN conjunct1, rule_format]
  note ih_expr = Suc [THEN conjunct2, THEN conjunct2, THEN conjunct2, THEN conjunct2,
      THEN conjunct2, rule_format]
  note keep_primary = parse_keeps_precedence [of n, THEN conjunct1, rule_format]
  note keep_binop = parse_keeps_precedence [of n, THEN conjunct2, THEN conjunct2,
      THEN conjunct2, THEN conjunct2, THEN conjunct1, rule_format]
  note keep_expr = parse_keeps_precedence [of n, THEN conjunct2, THEN conjunct2,
      THEN conjunct2, THEN conjunct2, THEN conjunct2, rule_format]
  note rules = primary_tokens_expression_tokens_binoprhs_tokens_arguments_tokens.intros
  have 1: "parsed (primary_tokens (precedence_of (binop_precedence s))) s s'"
    if "parse_primary (Suc n) s = Some (Some e, s')" for s e s'
    using that
  proof (cases rule: parse_primary_SucE)
    case ident
    then show ?thesis by (simp add: ih_ident)
  next
    case num
    then show ?thesis
      using stream_number [of s] by (intro parsedI [of _ "[Tok_number (numeric_value s)]"])
        (simp_all add: rules)
  next
    case paren
    then show ?thesis by (simp add: ih_paren)
  next
    case error
    then show ?thesis by simp
  qed
  have 2: "parsed (primary_tokens (precedence_of (binop_precedence s))) s s'"
    if "parse_paren_expr (Suc n) s = Some (Some e, s')" "current_token s = 40" for s e s'
    using that(1)
  proof (cases rule: parse_paren_expr_SucE)
    case inner_fails
    then show ?thesis by simp
  next
    case (error v s1)
    then show ?thesis by simp
  next
    case (closed v s1)
    from ih_expr [OF closed(1)] obtain ts
      where ts: "stream (get_next_token s) = ts @ stream s1"
        "expression_tokens (precedence_of (binop_precedence s)) ts"
      by (auto simp: parsed_def)
    have "stream s = Tok_char 40 # stream (get_next_token s)"
      using that(2) by (intro stream_char) simp_all
    moreover have "stream s1 = Tok_char 41 # stream s'"
      using closed(2,4) by (simp add: stream_char)
    ultimately have "stream s = (Tok_char 40 # ts @ [Tok_char 41]) @ stream s'"
      using ts(1) by simp
    then show ?thesis
      by (rule parsedI) (rule rules, rule ts(2))
  qed
  have 3: "parsed (primary_tokens (precedence_of (binop_precedence s))) s s'"
    if "parse_identifier_expr (Suc n) s = Some (Some e, s')" "current_token s = tok_identifier"
    for s e s'
    using that(1)
  proof (cases rule: parse_identifier_expr_SucE)
    case variable
    then show ?thesis
      using stream_identifier [OF that(2)]
      by (intro parsedI [of _ "[Tok_identifier (identifier_str s)]"]) (simp_all add: rules)
  next
    case no_args
    let ?s1 = "get_next_token s"
    have "stream ?s1 = Tok_char 40 # stream (get_next_token ?s1)"
      using no_args(1) by (intro stream_char) simp_all
    moreover have "stream (get_next_token ?s1) = Tok_char 41 # stream s'"
      using no_args(2,4) by (simp add: stream_char)
    ultimately have "stream s
        = [Tok_identifier (identifier_str s), Tok_char 40, Tok_char 41] @ stream s'"
      using stream_identifier [OF that(2)] by simp
    then show ?thesis
      by (rule parsedI) (rule rules)
  next
    case args_fail
    then show ?thesis by simp
  next
    case (call as s3)
    let ?s1 = "get_next_token s"
    let ?s2 = "get_next_token ?s1"
    from ih_args [OF call(3)] obtain ts
      where ts: "stream ?s2 = ts @ stream s3"
        "arguments_tokens (precedence_of (binop_precedence s)) ts"
        and close: "current_token s3 = 41"
      by (auto simp: parsed_def)
    have "stream ?s1 = Tok_char 40 # stream ?s2"
      using call(1) by (intro stream_char) simp_all
    moreover have "stream s3 = Tok_char 41 # stream s'"
      using close call(5) by (simp add: stream_char)
    ultimately have "stream s
        = (Tok_identifier (identifier_str s) # Tok_char 40 # ts @ [Tok_char 41]) @ stream s'"
      using stream_identifier [OF that(2)] ts(1) by simp
    then show ?thesis
      by (rule parsedI) (rule rules, rule ts(2))
  qed
  have 4: "parsed (arguments_tokens (precedence_of (binop_precedence s))) s s'
      \<and> current_token s' = 41"
    if "parse_identifier_expr_args (Suc n) as s = Some (Some es, s')" for as s es s'
    using that
  proof (cases rule: parse_identifier_expr_args_SucE)
    case arg_fails
    then show ?thesis by simp
  next
    case (last arg)
    from ih_expr [OF last(1)] obtain ts
      where "stream s = ts @ stream s'"
        "expression_tokens (precedence_of (binop_precedence s)) ts"
      by (auto simp: parsed_def)
    then have "parsed (arguments_tokens (precedence_of (binop_precedence s))) s s'"
      by (intro parsedI [of _ ts]) (simp_all add: rules)
    with last(2) show ?thesis by simp
  next
    case (error arg s1)
    then show ?thesis by simp
  next
    case (more arg s1)
    have table: "precedence_of (binop_precedence s1) = precedence_of (binop_precedence s)"
      using keep_expr [OF more(1)] by simp
    from ih_expr [OF more(1)] obtain ts
      where ts: "stream s = ts @ stream s1"
        "expression_tokens (precedence_of (binop_precedence s)) ts"
      by (auto simp: parsed_def)
    from ih_args [OF more(3)] obtain ts'
      where ts': "stream (get_next_token s1) = ts' @ stream s'"
        "arguments_tokens (precedence_of (binop_precedence s)) ts'"
        and close: "current_token s' = 41"
      by (auto simp: parsed_def table)
    have "stream s1 = Tok_char 44 # stream (get_next_token s1)"
      using more(2) by (intro stream_char) simp_all
    with ts(1) ts'(1) have "stream s = (ts @ Tok_char 44 # ts') @ stream s'"
      by simp
    then have "parsed (arguments_tokens (precedence_of (binop_precedence s))) s s'"
      using ts(2) ts'(2) by (intro parsedI [of _ "ts @ Tok_char 44 # ts'"]) (simp_all add: rules)
    with close show ?thesis by simp
  qed
  have 5: "parsed (binoprhs_tokens (precedence_of (binop_precedence s))) s s'"
    if "parse_binop_rhs (Suc n) p l s = Some (Some e, s')" "0 \<le> p" for p l s e s'
    using that(1)
  proof (cases rule: parse_binop_rhs_SucE)
    case stop
    then show ?thesis
      by (intro parsedI [of _ "[]"]) (simp_all add: rules)
  next
    case primary_fails
    then show ?thesis by simp
  next
    case (rhs_fails rhs s3)
    then show ?thesis by simp
  next
    case (merge rhs s3)
    let ?s1 = "snd (get_token_precedence s)"
    let ?c = "current_token s"
    have ascii: "isascii ?c" and positive: "0 < precedence_of (binop_precedence s) (char_of ?c)"
      using get_token_precedence_ascii [OF merge(1) that(2)]
        get_token_precedence_operator(1) [OF merge(1) that(2)] by simp_all
    have op: "stream s = Tok_char ?c # stream (get_next_token ?s1)"
      using stream_char [of ?s1 ?c] ascii by (simp add: isascii_def)
    have table: "precedence_of (binop_precedence s3) = precedence_of (binop_precedence s)"
      using keep_primary [OF merge(2)] by simp
    from ih_primary [OF merge(2)] obtain ts
      where ts: "stream (get_next_token ?s1) = ts @ stream s3"
        "primary_tokens (precedence_of (binop_precedence s)) ts"
      by (auto simp: parsed_def)
    from ih_binop [OF merge(4) that(2)] obtain ts'
      where ts': "stream s3 = ts' @ stream s'"
        "binoprhs_tokens (precedence_of (binop_precedence s)) ts'"
      by (auto simp: parsed_def table)
    have "stream s = (Tok_char ?c # ts @ ts') @ stream s'"
      using op ts(1) ts'(1) by simp
    then show ?thesis
      using ascii positive ts(2) ts'(2) by (intro parsedI [of _ "Tok_char ?c # ts @ ts'"])
        (simp_all add: rules)
  next
    case (absorb rhs s3 rhs' s5)
    let ?s1 = "snd (get_token_precedence s)"
    let ?c = "current_token s"
    have ascii: "isascii ?c" and positive: "0 < precedence_of (binop_precedence s) (char_of ?c)"
      using get_token_precedence_ascii [OF absorb(1) that(2)]
        get_token_precedence_operator(1) [OF absorb(1) that(2)] by simp_all
    have op: "stream s = Tok_char ?c # stream (get_next_token ?s1)"
      using stream_char [of ?s1 ?c] ascii by (simp add: isascii_def)
    have table: "precedence_of (binop_precedence s3) = precedence_of (binop_precedence s)"
      using keep_primary [OF absorb(2)] by simp
    have table5: "precedence_of (binop_precedence s5) = precedence_of (binop_precedence s)"
      using keep_binop [OF absorb(4)] table by simp
    from ih_primary [OF absorb(2)] obtain ts
      where ts: "stream (get_next_token ?s1) = ts @ stream s3"
        "primary_tokens (precedence_of (binop_precedence s)) ts"
      by (auto simp: parsed_def)
    from ih_binop [OF absorb(4) get_token_precedence_operator(2) [OF absorb(1) that(2)]]
    obtain ts' where ts': "stream s3 = ts' @ stream s5"
        "binoprhs_tokens (precedence_of (binop_precedence s)) ts'"
      by (auto simp: parsed_def table)
    from ih_binop [OF absorb(5) that(2)] obtain ts''
      where ts'': "stream s5 = ts'' @ stream s'"
        "binoprhs_tokens (precedence_of (binop_precedence s)) ts''"
      by (auto simp: parsed_def table5)
    have "stream s = (Tok_char ?c # ts @ ts' @ ts'') @ stream s'"
      using op ts(1) ts'(1) ts''(1) by simp
    moreover have "binoprhs_tokens (precedence_of (binop_precedence s)) (ts' @ ts'')"
      using ts'(2) ts''(2) by (rule binoprhs_tokens_append)
    ultimately show ?thesis
      using ascii positive ts(2)
      by (intro parsedI [of _ "Tok_char ?c # ts @ ts' @ ts''"]) (simp_all add: rules)
  qed
  have 6: "parsed (expression_tokens (precedence_of (binop_precedence s))) s s'"
    if "parse_expression (Suc n) s = Some (Some e, s')" for s e s'
    using that
  proof (cases rule: parse_expression_SucE)
    case primary_fails
    then show ?thesis by simp
  next
    case (binop_rhs lhs s1)
    have table: "precedence_of (binop_precedence s1) = precedence_of (binop_precedence s)"
      using keep_primary [OF binop_rhs(1)] by simp
    from ih_primary [OF binop_rhs(1)] obtain ts
      where ts: "stream s = ts @ stream s1"
        "primary_tokens (precedence_of (binop_precedence s)) ts"
      by (auto simp: parsed_def)
    from ih_binop [OF binop_rhs(2)] obtain ts'
      where ts': "stream s1 = ts' @ stream s'"
        "binoprhs_tokens (precedence_of (binop_precedence s)) ts'"
      by (auto simp: parsed_def table)
    have "stream s = (ts @ ts') @ stream s'"
      using ts(1) ts'(1) by simp
    then show ?thesis
      using ts(2) ts'(2) by (intro parsedI [of _ "ts @ ts'"]) (simp_all add: rules)
  qed
  note 4 [THEN conjunct1] 4 [THEN conjunct2]
  note args = this
  show ?case
    by (intro conjI allI impI) (erule 1 2 3 args 5 6; assumption?)+
qed

section \<open>The claims\<close>

text \<open>
  C1 (as the code has it). Tokenizing \<^verbatim>\<open>1.2.3\<close> yields a number token with value
  \<open>1.2\<close> (the rational \<open>6 / 5\<close>) and then end of input: the lexer gathers the whole
  run of digits and dots into \<^verbatim>\<open>numeric_str\<close> before \<^verbatim>\<open>strtod\<close> parses its
  longest numeric prefix, so the second dot and the \<open>3\<close> are consumed by the same
  token. A dot always starts a number, hence \<^verbatim>\<open>get_token\<close> never returns it (code
  46) as a literal character.
\<close>

theorem tokenize_1_2_3:
  "fst (tokenize (initial_state ''1.2.3'')) = [Tok_number (6 / 5), Tok_eof]
   \<and> fst (get_token s) \<noteq> 46"
proof
  show "fst (tokenize (initial_state ''1.2.3'')) = [Tok_number (6 / 5), Tok_eof]"
    by code_simp
  show "fst (get_token s) \<noteq> 46"
    by (rule get_token_never_dot)
qed

text \<open>
  C1 as stated fails: the first three tokens of \<^verbatim>\<open>1.2.3\<close> are not a number, a
  literal dot and a number.
\<close>

theorem tokenize_1_2_3_counterexample:
  "take 3 (fst (tokenize (initial_state ''1.2.3'')))
     \<noteq> [Tok_number (6 / 5), Tok_char 46, Tok_number 3]"
  by code_simp

text \<open>
  C3. Parsing \<^verbatim>\<open>1+2*3\<close> yields \<open>1 + (2 * 3)\<close>. In general: when the operator has
  been taken and its right-hand primary parsed, and the token that follows has a strictly
  greater precedence than the operator, \<^verbatim>\<open>parse_binop_rhs\<close> first calls itself on
  that primary with the bound one above the operator's precedence, and merges what this
  call returns as the right-hand side (a failure of the call is the failure of the whole).
\<close>

theorem parse_expression_1_plus_2_times_3:
  "map_option fst (parse_expression (enough (start ''1+2*3'')) (start ''1+2*3''))
     = Some (Some (binary_expr_ast CHR ''+'' (number_expr_ast 1)
         (binary_expr_ast CHR ''*'' (number_expr_ast 2) (number_expr_ast 3))))
   \<and> (\<not> fst (get_token_precedence s) < p
        \<and> parse_primary n (get_next_token (snd (get_token_precedence s)))
            = Some (Some rhs, s3)
        \<and> fst (get_token_precedence s) < fst (get_token_precedence s3) \<longrightarrow>
        parse_binop_rhs (Suc n) p l s =
          (case parse_binop_rhs n (fst (get_token_precedence s) + 1) rhs
                  (snd (get_token_precedence s3)) of
             None \<Rightarrow> None
           | Some (None, s5) \<Rightarrow> Some (None, s5)
           | Some (Some rhs', s5) \<Rightarrow>
               parse_binop_rhs n p
                 (binary_expr_ast (char_of (current_token s)) l rhs') s5))"
proof (intro conjI impI)
  show "map_option fst (parse_expression (enough (start ''1+2*3'')) (start ''1+2*3''))
     = Some (Some (binary_expr_ast CHR ''+'' (number_expr_ast 1)
         (binary_expr_ast CHR ''*'' (number_expr_ast 2) (number_expr_ast 3))))"
    by code_simp
next
  assume "\<not> fst (get_token_precedence s) < p
        \<and> parse_primary n (get_next_token (snd (get_token_precedence s)))
            = Some (Some rhs, s3)
        \<and> fst (get_token_precedence s) < fst (get_token_precedence s3)"
  then show "parse_binop_rhs (Suc n) p l s =
          (case parse_binop_rhs n (fst (get_token_precedence s) + 1) rhs
                  (snd (get_token_precedence s3)) of
             None \<Rightarrow> None
           | Some (None, s5) \<Rightarrow> Some (None, s5)
           | Some (Some rhs', s5) \<Rightarrow>
               parse_binop_rhs n p
                 (binary_expr_ast (char_of (current_token s)) l rhs') s5)"
    by (simp add: case_prod_beta Let_def cong: option.case_cong)
qed

theorem parse_expression_1_plus_2_times_3_witness:
  "fst (get_token_precedence (snd (the (parse_primary 1 (start ''1+2*3''))))) = 20
   \<and> fst (get_token_precedence (snd (the (parse_primary 5 (get_next_token
      (snd (get_token_precedence (snd (the (parse_primary 1 (start ''1+2*3''))))))))))) = 40
   \<and> parse_binop_rhs 6 0 (number_expr_ast 1) (snd (the (parse_primary 1 (start ''1+2*3''))))
     = (case parse_binop_rhs 5 21 (number_expr_ast 2)
              (snd (get_token_precedence (snd (the (parse_primary 5 (get_next_token
                 (snd (get_token_precedence
                    (snd (the (parse_primary 1 (start ''1+2*3'')))))))))))) of
          None \<Rightarrow> None
        | Some (None, s5) \<Rightarrow> Some (None, s5)
        | Some (Some rhs', s5) \<Rightarrow>
            parse_binop_rhs 5 0 (binary_expr_ast CHR ''+'' (number_expr_ast 1) rhs') s5)"
proof -
  let ?s = "snd (the (parse_primary 1 (start ''1+2*3'')))"
  let ?s2 = "get_next_token (snd (get_token_precedence ?s))"
  let ?s3 = "snd (the (parse_primary 5 ?s2))"
  have plus: "fst (get_token_precedence ?s) = 20"
    by code_simp
  have times: "fst (get_token_precedence ?s3) = 40"
    by code_simp
  have op: "char_of (current_token ?s) = CHR ''+''"
    by code_simp
  have "map_option fst (parse_primary 5 ?s2) = Some (Some (number_expr_ast 2))"
    by code_simp
  then have primary: "parse_primary 5 ?s2 = Some (Some (number_expr_ast 2), ?s3)"
    by (cases "parse_primary 5 ?s2") auto
  have six: "Suc 5 = 6"
    by simp
  have hyps: "\<not> fst (get_token_precedence ?s) < 0
      \<and> parse_primary 5 ?s2 = Some (Some (number_expr_ast 2), ?s3)
      \<and> fst (get_token_precedence ?s) < fst (get_token_precedence ?s3)"
    using primary by (simp only: plus times) simp
  have "parse_binop_rhs 6 0 (number_expr_ast 1) ?s =
      (case parse_binop_rhs 5 (fst (get_token_precedence ?s) + 1) (number_expr_ast 2)
              (snd (get_token_precedence ?s3)) of
         None \<Rightarrow> None
       | Some (None, s5) \<Rightarrow> Some (None, s5)
       | Some (Some rhs', s5) \<Rightarrow>
           parse_binop_rhs 5 0
             (binary_expr_ast (char_of (current_token ?s)) (number_expr_ast 1) rhs') s5)"
    using parse_expression_1_plus_2_times_3 [of ?s 0 5 "number_expr_ast 2" ?s3
        "number_expr_ast 1", THEN conjunct2, rule_format, OF hyps]
    by (simp only: six)
  then have "parse_binop_rhs 6 0 (number_expr_ast 1) ?s =
      (case parse_binop_rhs 5 21 (number_expr_ast 2) (snd (get_token_precedence ?s3)) of
         None \<Rightarrow> None
       | Some (None, s5) \<Rightarrow> Some (None, s5)
       | Some (Some rhs', s5) \<Rightarrow>
           parse_binop_rhs 5 0 (binary_expr_ast CHR ''+'' (number_expr_ast 1) rhs') s5)"
    by (simp only: plus op) simp
  with plus times show ?thesis
    by (intro conjI)
qed



text \<open>
  C5. The precedence of the current token is \<open>-1\<close> when the token is not an ASCII
  character, when the table has no entry for it, and when its entry is not positive;
  otherwise it is the entry. With the operators of the initial table that is \<open>10\<close>
  for \<open><\<close> and \<open>>\<close>, \<open>20\<close> for \<open>+\<close> and \<open>-\<close>, \<open>40\<close> for \<open>*\<close> and
  \<open>/\<close>, and \<open>-1\<close> for every other token.
\<close>

theorem get_token_precedence_lookup:
  "fst (get_token_precedence s) =
     (if \<not> isascii (current_token s) then - 1
      else case binop_precedence s (char_of (current_token s)) of
             None \<Rightarrow> - 1
           | Some v \<Rightarrow> if v \<le> 0 then - 1 else v)
   \<and> (precedence_of (binop_precedence s) = precedence_of binop_precedence_init \<longrightarrow>
        fst (get_token_precedence s) =
          (if current_token s = 60 \<or> current_token s = 62 then 10
           else if current_token s = 43 \<or> current_token s = 45 then 20
           else if current_token s = 42 \<or> current_token s = 47 then 40
           else - 1))"
proof (intro conjI impI)
  show "fst (get_token_precedence s) =
     (if \<not> isascii (current_token s) then - 1
      else case binop_precedence s (char_of (current_token s)) of
             None \<Rightarrow> - 1
           | Some v \<Rightarrow> if v \<le> 0 then - 1 else v)"
    by (simp add: fst_get_token_precedence precedence_of_def split: option.split)
next
  assume init: "precedence_of (binop_precedence s) = precedence_of binop_precedence_init"
  show "fst (get_token_precedence s) =
          (if current_token s = 60 \<or> current_token s = 62 then 10
           else if current_token s = 43 \<or> current_token s = 45 then 20
           else if current_token s = 42 \<or> current_token s = 47 then 40
           else - 1)"
  proof (cases "isascii (current_token s)")
    case True
    then show ?thesis
      by (simp add: fst_get_token_precedence init precedence_of_init char_of_ascii)
  next
    case False
    then show ?thesis
      by (auto simp: fst_get_token_precedence isascii_def)
  qed
qed

theorem get_token_precedence_lookup_witness:
  "precedence_of (binop_precedence (start ''* 2'')) = precedence_of binop_precedence_init
   \<and> fst (get_token_precedence (start ''* 2'')) = 40"
proof -
  have table: "precedence_of (binop_precedence (start ''* 2''))
                 = precedence_of binop_precedence_init"
    by (simp add: start_def initial_state_def)
  have "current_token (start ''* 2'') = 42"
    by code_simp
  with table get_token_precedence_lookup [of "start ''* 2''"] show ?thesis
    by simp
qed

text \<open>
  C8. \<^verbatim>\<open>parse_top_level_expr\<close> succeeds exactly when \<^verbatim>\<open>parse_expression\<close> does,
  and its result is then the parsed expression as the body of a function whose prototype
  has the empty name and no parameters.
\<close>

theorem parse_top_level_expr_anonymous:
  "parse_top_level_expr n s = Some (Some f, s') \<longleftrightarrow>
     (\<exists>expr. parse_expression n s = Some (Some expr, s')
        \<and> f = function_ast (prototype_ast [] []) expr)"
  by (auto simp: parse_top_level_expr_def split: option.splits)

theorem parse_top_level_expr_anonymous_witness:
  "map_option fst (parse_top_level_expr (enough (start ''x+1'')) (start ''x+1''))
     = Some (Some (function_ast (prototype_ast [] [])
         (binary_expr_ast CHR ''+'' (variable_expr_ast ''x'') (number_expr_ast 1))))"
proof -
  let ?n = "enough (start ''x+1'')" and ?s = "start ''x+1''"
  let ?e = "binary_expr_ast CHR ''+'' (variable_expr_ast ''x'') (number_expr_ast 1)"
  have "map_option fst (parse_expression ?n ?s) = Some (Some ?e)"
    by code_simp
  then have "parse_expression ?n ?s = Some (Some ?e, snd (the (parse_expression ?n ?s)))"
    by (cases "parse_expression ?n ?s") auto
  then have "parse_top_level_expr ?n ?s
      = Some (Some (function_ast (prototype_ast [] []) ?e), snd (the (parse_expression ?n ?s)))"
    using parse_top_level_expr_anonymous
      [of ?n ?s "function_ast (prototype_ast [] []) ?e" "snd (the (parse_expression ?n ?s))"]
    by simp
  then show ?thesis
    by simp
qed

text \<open>
  C10. The expression parser returns on every state, and so do the entry points that
  call it: with the bound \<open>enough s\<close> on the depth of its recursion
  \<^verbatim>\<open>parse_expression\<close> has a result. That bound is finite because parsing consumes
  input: a primary that is parsed takes at least one token, so every turn of the loop of
  \<^verbatim>\<open>parse_binop_rhs\<close>, and every call of \<^verbatim>\<open>parse_binop_rhs\<close> by itself, starts
  with strictly less input pending; and \<^verbatim>\<open>parse_binop_rhs\<close> never gives input back.
  (The lexer, \<^verbatim>\<open>parse_prototype\<close> and \<^verbatim>\<open>parse_extern\<close> take no bound: their
  loops are total functions, each accepted with a measure that decreases.)
\<close>

theorem parser_terminates:
  "parse_expression (enough s) s \<noteq> None
   \<and> parse_top_level_expr (enough s) s \<noteq> None
   \<and> parse_definition (enough s) s \<noteq> None
   \<and> (parse_primary n s = Some (Some e, s1) \<longrightarrow> pending s1 < pending s)
   \<and> (parse_binop_rhs n p l s = Some (r, s') \<longrightarrow> pending s' \<le> pending s)"
proof (intro conjI impI)
  show expr: "parse_expression (enough s) s \<noteq> None"
    using parse_enough_fuel [of "enough s"] by (simp add: enough_def)
  then show "parse_top_level_expr (enough s) s \<noteq> None"
    by (auto simp: parse_top_level_expr_def split: option.splits)
  show "parse_definition (enough s) s \<noteq> None"
  proof -
    let ?s2 = "snd (parse_prototype (get_next_token s))"
    have "pending ?s2 \<le> pending s"
      using pending_parse_prototype [of "get_next_token s"] pending_get_next_token_le [of s]
      by simp
    then have "enough ?s2 \<le> enough s"
      by (simp add: enough_def)
    then have "parse_expression (enough s) ?s2 = parse_expression (enough ?s2) ?s2"
      by (rule parse_expression_enough)
    moreover have "parse_expression (enough ?s2) ?s2 \<noteq> None"
      using parse_enough_fuel [of "enough ?s2"] by (simp add: enough_def)
    ultimately show ?thesis
      by (auto simp: parse_definition_def Let_def case_prod_beta split: option.splits)
  qed
next
  assume "parse_primary n s = Some (Some e, s1)"
  then show "pending s1 < pending s"
    using parse_advances [of n] by (simp add: advances_def)
next
  assume "parse_binop_rhs n p l s = Some (r, s')"
  then show "pending s' \<le> pending s"
    using parse_advances [of n] by blast
qed

theorem parser_terminates_witness:
  "pending (snd (the (parse_primary 2 (start ''7*x'')))) < pending (start ''7*x'')
   \<and> pending (snd (the (parse_binop_rhs 9 0 (number_expr_ast 7)
          (snd (the (parse_primary 2 (start ''7*x'')))))))
       \<le> pending (snd (the (parse_primary 2 (start ''7*x''))))"
proof -
  let ?s = "start ''7*x''"
  let ?s1 = "snd (the (parse_primary 2 ?s))"
  let ?b = "parse_binop_rhs 9 0 (number_expr_ast 7) ?s1"
  have "map_option fst (parse_primary 2 ?s) = Some (Some (number_expr_ast 7))"
    by code_simp
  then have 1: "parse_primary 2 ?s = Some (Some (number_expr_ast 7), ?s1)"
    by (cases "parse_primary 2 ?s") auto
  have "map_option fst ?b
      = Some (Some (binary_expr_ast CHR ''*'' (number_expr_ast 7) (variable_expr_ast ''x'')))"
    by code_simp
  then have 2: "?b
      = Some (Some (binary_expr_ast CHR ''*'' (number_expr_ast 7) (variable_expr_ast ''x'')),
              snd (the ?b))"
    by (cases ?b) auto
  from 1 2 show ?thesis
    using parser_terminates [of ?s 2 "number_expr_ast 7" ?s1]
      parser_terminates [of ?s1 9 _ _ 0 "number_expr_ast 7"
        "Some (binary_expr_ast CHR ''*'' (number_expr_ast 7) (variable_expr_ast ''x''))"
        "snd (the ?b)"]
    by blast
qed

text \<open>
  C6. Every failure of the parser is reported and makes the entry point return
  \<^verbatim>\<open>nullptr\<close>; a node is returned only for a parse without failure.

  \<^item> The contract of the four entry points: whenever one returns \<^verbatim>\<open>nullptr\<close>, exactly one
    line has been written to \<^verbatim>\<open>std::cerr\<close> during the call, a diagnostic naming the
    token that is current on return (the offending token: nothing is consumed after the
    failure); whenever it returns a node, nothing has been written.
  \<^item> The failure returns of the source, one by one: at each of the six places where a token
    is not the expected one, \<^verbatim>\<open>log_error\<close> is called with that token and
    \<^verbatim>\<open>nullptr\<close> is returned; and each of the eight places that receive \<^verbatim>\<open>nullptr\<close>
    from a callee returns \<^verbatim>\<open>nullptr\<close> at once, in the state the callee left.
    \<^verbatim>\<open>parse_primary\<close> and \<^verbatim>\<open>parse_extern\<close> return what their callee returns.
  \<^item> Whatever is not a sentence of the grammar fails: when an entry point returns a node,
    the tokens it consumed form an expression, respectively a prototype (followed by an
    expression for \<^verbatim>\<open>parse_definition\<close>), and the parameters and the name of the
    prototype are those of the tokens.
\<close>

theorem parser_error_contract:
  "(parse_expression n s = Some (r, s') \<longrightarrow> error_contract s r s')
   \<and> (parse_top_level_expr n s = Some (f, s') \<longrightarrow> error_contract s f s')
   \<and> (parse_definition n s = Some (f, s') \<longrightarrow> error_contract s f s')
   \<and> error_contract s (fst (parse_extern s)) (snd (parse_extern s))
   \<and> (current_token s \<noteq> tok_identifier \<and> current_token s \<noteq> tok_number
        \<and> current_token s \<noteq> 40 \<longrightarrow>
      parse_primary (Suc n) s = Some (None, log_error
        (''Expected expression, got '' @ to_string (current_token s) @ '' instead'') s))
   \<and> (current_token s = tok_identifier \<longrightarrow>
      parse_primary (Suc n) s = parse_identifier_expr n s)
   \<and> (current_token s = 40 \<longrightarrow> parse_primary (Suc n) s = parse_paren_expr n s)
   \<and> (parse_expression n (get_next_token s) = Some (None, s') \<longrightarrow>
      parse_paren_expr (Suc n) s = Some (None, s'))
   \<and> (parse_expression n (get_next_token s) = Some (Some v, s1) \<and> current_token s1 \<noteq> 41 \<longrightarrow>
      parse_paren_expr (Suc n) s = Some (None, log_error
        (''expected ')', got '' @ to_string (current_token s1) @ '' instead.'') s1))
   \<and> (parse_expression n s = Some (None, s') \<longrightarrow>
      parse_identifier_expr_args (Suc n) args s = Some (None, s'))
   \<and> (parse_expression n s = Some (Some v, s1) \<and> current_token s1 \<noteq> 41
        \<and> current_token s1 \<noteq> 44 \<longrightarrow>
      parse_identifier_expr_args (Suc n) args s = Some (None, log_error
        (''Expected ')' of ',' in argument list, got '' @ to_string (current_token s1)
         @ '' instead.'') s1))
   \<and> (current_token (get_next_token s) = 40
        \<and> current_token (get_next_token (get_next_token s)) \<noteq> 41
        \<and> parse_identifier_expr_args n [] (get_next_token (get_next_token s))
            = Some (None, s') \<longrightarrow>
      parse_identifier_expr (Suc n) s = Some (None, s'))
   \<and> (\<not> fst (get_token_precedence s) < p
        \<and> parse_primary n (get_next_token (snd (get_token_precedence s))) = Some (None, s') \<longrightarrow>
      parse_binop_rhs (Suc n) p l s = Some (None, s'))
   \<and> (\<not> fst (get_token_precedence s) < p
        \<and> parse_primary n (get_next_token (snd (get_token_precedence s))) = Some (Some v, s1)
        \<and> fst (get_token_precedence s) < fst (get_token_precedence s1)
        \<and> parse_binop_rhs n (fst (get_token_precedence s) + 1) v
              (snd (get_token_precedence s1)) = Some (None, s') \<longrightarrow>
      parse_binop_rhs (Suc n) p l s = Some (None, s'))
   \<and> (parse_primary n s = Some (None, s') \<longrightarrow> parse_expression (Suc n) s = Some (None, s'))
   \<and> (parse_primary n s = Some (Some v, s1) \<longrightarrow>
      parse_expression (Suc n) s = parse_binop_rhs n 0 v s1)
   \<and> (current_token s \<noteq> tok_identifier \<longrightarrow>
      parse_prototype s = (None, log_error
        (''Expected function name in prototype, got '' @ to_string (current_token s)
         @ '' instead'') s))
   \<and> (current_token s = tok_identifier \<and> current_token (get_next_token s) \<noteq> 40 \<longrightarrow>
      parse_prototype s = (None, log_error
        (''Expected '(' in prototype, got '' @ to_string (current_token (get_next_token s))
         @ '' instead.'') (get_next_token s)))
   \<and> (current_token s = tok_identifier \<and> current_token (get_next_token s) = 40
        \<and> current_token (snd (read_arg_names [] (get_next_token s))) \<noteq> 41 \<longrightarrow>
      parse_prototype s = (None, log_error
        (''Expected ')' in prototype, got ''
         @ to_string (current_token (snd (read_arg_names [] (get_next_token s))))
         @ '' instead.'') (snd (read_arg_names [] (get_next_token s)))))
   \<and> parse_extern s = parse_prototype (get_next_token s)
   \<and> (fst (parse_prototype (get_next_token s)) = None \<longrightarrow>
      parse_definition n s = Some (None, snd (parse_prototype (get_next_token s))))
   \<and> (fst (parse_prototype (get_next_token s)) = Some proto
        \<and> parse_expression n (snd (parse_prototype (get_next_token s))) = Some (None, s') \<longrightarrow>
      parse_definition n s = Some (None, s'))
   \<and> (parse_expression n s = Some (None, s') \<longrightarrow> parse_top_level_expr n s = Some (None, s'))
   \<and> (parse_expression n s = Some (Some e, s') \<longrightarrow>
      parsed (expression_tokens (precedence_of (binop_precedence s))) s s')
   \<and> (parse_top_level_expr n s = Some (Some (function_ast proto e), s') \<longrightarrow>
      parsed (expression_tokens (precedence_of (binop_precedence s))) s s')
   \<and> (parse_definition n s
          = Some (Some (function_ast (prototype_ast fn_name arg_names) e), s') \<longrightarrow>
      (\<exists>ts. stream (get_next_token s) = prototype_tokens fn_name arg_names @ ts @ stream s'
         \<and> expression_tokens (precedence_of (binop_precedence s)) ts))
   \<and> (fst (parse_extern s) = Some (prototype_ast fn_name arg_names) \<longrightarrow>
      stream (get_next_token s)
        = prototype_tokens fn_name arg_names @ stream (snd (parse_extern s)))"
proof -
  note expr = parse_error_contract [of n, THEN conjunct2, THEN conjunct2, THEN conjunct2,
      THEN conjunct2, THEN conjunct2, rule_format]
  note grammar = parse_grammar [of n, THEN conjunct2, THEN conjunct2, THEN conjunct2,
      THEN conjunct2, THEN conjunct2, rule_format]
  have c1: "parse_expression n s = Some (r, s') \<longrightarrow> error_contract s r s'"
    using expr by blast
  have c2: "parse_top_level_expr n s = Some (f, s') \<longrightarrow> error_contract s f s'"
  proof
    assume "parse_top_level_expr n s = Some (f, s')"
    then obtain r where "parse_expression n s = Some (r, s')"
      and "f = None \<longleftrightarrow> r = None"
      by (auto simp: parse_top_level_expr_def split: option.splits)
    then show "error_contract s f s'"
      using expr [of s r s'] by (cases f; cases r) simp_all
  qed
  have c3: "parse_definition n s = Some (f, s') \<longrightarrow> error_contract s f s'"
  proof
    assume def: "parse_definition n s = Some (f, s')"
    define s1 where "s1 = get_next_token s"
    define s2 where "s2 = snd (parse_prototype s1)"
    have proto: "error_contract s1 (fst (parse_prototype s1)) s2"
      unfolding s2_def by (rule error_contract_parse_prototype)
    have s1: "cerr s1 = cerr s"
      by (simp add: s1_def)
    show "error_contract s f s'"
    proof (cases "fst (parse_prototype s1)")
      case None
      with def have "f = None" "s' = s2"
        by (simp_all add: parse_definition_def Let_def case_prod_beta s1_def s2_def)
      with proto None s1 show ?thesis
        by (auto intro: reported_cerr)
    next
      case (Some p)
      with def obtain r where e: "parse_expression n s2 = Some (r, s')"
        and "f = None \<longleftrightarrow> r = None"
        by (auto simp: parse_definition_def Let_def case_prod_beta s1_def s2_def
            split: option.splits)
      moreover have "cerr s2 = cerr s"
        using proto Some s1 by simp
      ultimately show ?thesis
        using expr [OF e] by (cases f; cases r) (auto intro: reported_cerr)
    qed
  qed
  have c4: "error_contract s (fst (parse_extern s)) (snd (parse_extern s))"
    using error_contract_parse_prototype [of "get_next_token s"]
    by (auto simp: parse_extern_def intro: error_contract_cerr)
  have r1: "current_token s \<noteq> tok_identifier \<and> current_token s \<noteq> tok_number
        \<and> current_token s \<noteq> 40 \<longrightarrow>
      parse_primary (Suc n) s = Some (None, log_error
        (''Expected expression, got '' @ to_string (current_token s) @ '' instead'') s)"
    by simp
  have r2: "current_token s = tok_identifier \<longrightarrow>
      parse_primary (Suc n) s = parse_identifier_expr n s"
    by simp
  have r3: "current_token s = 40 \<longrightarrow> parse_primary (Suc n) s = parse_paren_expr n s"
    by simp
  have r4: "parse_expression n (get_next_token s) = Some (None, s') \<longrightarrow>
      parse_paren_expr (Suc n) s = Some (None, s')"
    by simp
  have r5: "parse_expression n (get_next_token s) = Some (Some v, s1)
        \<and> current_token s1 \<noteq> 41 \<longrightarrow>
      parse_paren_expr (Suc n) s = Some (None, log_error
        (''expected ')', got '' @ to_string (current_token s1) @ '' instead.'') s1)"
    by simp
  have r6: "parse_expression n s = Some (None, s') \<longrightarrow>
      parse_identifier_expr_args (Suc n) args s = Some (None, s')"
    by simp
  have r7: "parse_expression n s = Some (Some v, s1) \<and> current_token s1 \<noteq> 41
        \<and> current_token s1 \<noteq> 44 \<longrightarrow>
      parse_identifier_expr_args (Suc n) args s = Some (None, log_error
        (''Expected ')' of ',' in argument list, got '' @ to_string (current_token s1)
         @ '' instead.'') s1)"
    by simp
  have r8: "current_token (get_next_token s) = 40
        \<and> current_token (get_next_token (get_next_token s)) \<noteq> 41
        \<and> parse_identifier_expr_args n [] (get_next_token (get_next_token s))
            = Some (None, s') \<longrightarrow>
      parse_identifier_expr (Suc n) s = Some (None, s')"
    by (simp add: Let_def)
  have r9: "\<not> fst (get_token_precedence s) < p
        \<and> parse_primary n (get_next_token (snd (get_token_precedence s))) = Some (None, s') \<longrightarrow>
      parse_binop_rhs (Suc n) p l s = Some (None, s')"
    by (simp add: case_prod_beta Let_def)
  have r10: "\<not> fst (get_token_precedence s) < p
        \<and> parse_primary n (get_next_token (snd (get_token_precedence s))) = Some (Some v, s1)
        \<and> fst (get_token_precedence s) < fst (get_token_precedence s1)
        \<and> parse_binop_rhs n (fst (get_token_precedence s) + 1) v
              (snd (get_token_precedence s1)) = Some (None, s') \<longrightarrow>
      parse_binop_rhs (Suc n) p l s = Some (None, s')"
    by (simp add: case_prod_beta Let_def)
  have r11: "parse_primary n s = Some (None, s') \<longrightarrow>
      parse_expression (Suc n) s = Some (None, s')"
    by simp
  have r12: "parse_primary n s = Some (Some v, s1) \<longrightarrow>
      parse_expression (Suc n) s = parse_binop_rhs n 0 v s1"
    by simp
  have r13: "current_token s \<noteq> tok_identifier \<longrightarrow>
      parse_prototype s = (None, log_error
        (''Expected function name in prototype, got '' @ to_string (current_token s)
         @ '' instead'') s)"
    by (simp add: parse_prototype_def log_error_proto_def)
  have r14: "current_token s = tok_identifier \<and> current_token (get_next_token s) \<noteq> 40 \<longrightarrow>
      parse_prototype s = (None, log_error
        (''Expected '(' in prototype, got '' @ to_string (current_token (get_next_token s))
         @ '' instead.'') (get_next_token s))"
    by (simp add: parse_prototype_def log_error_proto_def Let_def)
  have r15: "current_token s = tok_identifier \<and> current_token (get_next_token s) = 40
        \<and> current_token (snd (read_arg_names [] (get_next_token s))) \<noteq> 41 \<longrightarrow>
      parse_prototype s = (None, log_error
        (''Expected ')' in prototype, got ''
         @ to_string (current_token (snd (read_arg_names [] (get_next_token s))))
         @ '' instead.'') (snd (read_arg_names [] (get_next_token s))))"
    by (simp add: parse_prototype_def log_error_proto_def Let_def case_prod_beta)
  have r16: "parse_extern s = parse_prototype (get_next_token s)"
    by (simp add: parse_extern_def)
  have r17: "fst (parse_prototype (get_next_token s)) = None \<longrightarrow>
      parse_definition n s = Some (None, snd (parse_prototype (get_next_token s)))"
    by (simp add: parse_definition_def Let_def case_prod_beta)
  have r18: "fst (parse_prototype (get_next_token s)) = Some proto
        \<and> parse_expression n (snd (parse_prototype (get_next_token s))) = Some (None, s') \<longrightarrow>
      parse_definition n s = Some (None, s')"
    by (simp add: parse_definition_def Let_def case_prod_beta)
  have r19: "parse_expression n s = Some (None, s') \<longrightarrow>
      parse_top_level_expr n s = Some (None, s')"
    by (simp add: parse_top_level_expr_def)
  have g1: "parse_expression n s = Some (Some e, s') \<longrightarrow>
      parsed (expression_tokens (precedence_of (binop_precedence s))) s s'"
    using grammar by blast
  have g2: "parse_top_level_expr n s = Some (Some (function_ast proto e), s') \<longrightarrow>
      parsed (expression_tokens (precedence_of (binop_precedence s))) s s'"
  proof
    assume "parse_top_level_expr n s = Some (Some (function_ast proto e), s')"
    then have "parse_expression n s = Some (Some e, s')"
      by (auto simp: parse_top_level_expr_def split: option.splits)
    then show "parsed (expression_tokens (precedence_of (binop_precedence s))) s s'"
      by (rule grammar)
  qed
  have g3: "parse_definition n s
          = Some (Some (function_ast (prototype_ast fn_name arg_names) e), s') \<longrightarrow>
      (\<exists>ts. stream (get_next_token s) = prototype_tokens fn_name arg_names @ ts @ stream s'
         \<and> expression_tokens (precedence_of (binop_precedence s)) ts)"
  proof
    assume def: "parse_definition n s
        = Some (Some (function_ast (prototype_ast fn_name arg_names) e), s')"
    let ?s1 = "get_next_token s"
    let ?s2 = "snd (parse_prototype ?s1)"
    from def have proto: "fst (parse_prototype ?s1) = Some (prototype_ast fn_name arg_names)"
      and body: "parse_expression n ?s2 = Some (Some e, s')"
      by (auto simp: parse_definition_def Let_def case_prod_beta split: option.splits)
    from grammar [OF body] obtain ts where "stream ?s2 = ts @ stream s'"
      and "expression_tokens (precedence_of (binop_precedence s)) ts"
      by (auto simp: parsed_def)
    with parse_prototype_stream [OF proto]
    show "\<exists>ts. stream ?s1 = prototype_tokens fn_name arg_names @ ts @ stream s'
         \<and> expression_tokens (precedence_of (binop_precedence s)) ts"
      by auto
  qed
  have g4: "fst (parse_extern s) = Some (prototype_ast fn_name arg_names) \<longrightarrow>
      stream (get_next_token s)
        = prototype_tokens fn_name arg_names @ stream (snd (parse_extern s))"
    using parse_prototype_stream [of "get_next_token s" fn_name arg_names]
    by (simp add: parse_extern_def)
  from c1 c2 c3 c4 r1 r2 r3 r4 r5 r6 r7 r8 r9 r10 r11 r12 r13 r14 r15 r16 r17 r18 r19
    g1 g2 g3 g4
  show ?thesis
    by (intro conjI)
qed

theorem parser_error_contract_witness:
  "map_option fst (parse_expression (enough (start ''(1+2'')) (start ''(1+2'')) = Some None
   \<and> cerr (snd (the (parse_expression (enough (start ''(1+2'')) (start ''(1+2''))))
       = ''log_error: expected ')', got -1 instead.'' @ [CHR 0x0A]
   \<and> reported (start ''(1+2'')
        (snd (the (parse_expression (enough (start ''(1+2'')) (start ''(1+2''))))
   \<and> reported (start '')'')
        (snd (the (parse_top_level_expr (enough (start '')'')) (start '')''))))
   \<and> reported (start ''def f(x y'')
        (snd (the (parse_definition (enough (start ''def f(x y'')) (start ''def f(x y''))))
   \<and> parse_extern (start ''extern 5'')
       = (None, log_error ''Expected function name in prototype, got -5 instead''
            (get_next_token (start ''extern 5'')))
   \<and> stream (get_next_token (start ''extern f(a b)''))
       = prototype_tokens ''f'' [''a'', ''b'']
           @ stream (snd (parse_extern (start ''extern f(a b)'')))
   \<and> parsed (expression_tokens (precedence_of binop_precedence_init)) (start ''1+2'')
        (snd (the (parse_expression (enough (start ''1+2'')) (start ''1+2''))))"
proof (intro conjI)
  let ?s = "start ''(1+2''"
  let ?x = "parse_expression (enough ?s) ?s"
  show none: "map_option fst ?x = Some None"
    by code_simp
  then have "?x = Some (None, snd (the ?x))"
    by (cases ?x) auto
  then have "error_contract ?s (None :: expr_ast option) (snd (the ?x))"
    by (rule parser_error_contract [where n = "enough ?s" and s = ?s, THEN conjunct1, rule_format])
  then show "reported ?s (snd (the ?x))"
    by simp
  show "cerr (snd (the ?x)) = ''log_error: expected ')', got -1 instead.'' @ [CHR 0x0A]"
    by code_simp
next
  let ?s = "start '')''"
  let ?x = "parse_top_level_expr (enough ?s) ?s"
  have "map_option fst ?x = Some None"
    by code_simp
  then have "?x = Some (None, snd (the ?x))"
    by (cases ?x) auto
  then have "error_contract ?s (None :: function_ast option) (snd (the ?x))"
    by (rule parser_error_contract [where n = "enough ?s" and s = ?s, THEN conjunct2, THEN conjunct1, rule_format])
  then show "reported ?s (snd (the ?x))"
    by simp
next
  let ?s = "start ''def f(x y''"
  let ?x = "parse_definition (enough ?s) ?s"
  have "map_option fst ?x = Some None"
    by code_simp
  then have "?x = Some (None, snd (the ?x))"
    by (cases ?x) auto
  then have "error_contract ?s (None :: function_ast option) (snd (the ?x))"
    by (rule parser_error_contract [where n = "enough ?s" and s = ?s, THEN conjunct2, THEN conjunct2, THEN conjunct1, rule_format])
  then show "reported ?s (snd (the ?x))"
    by simp
next
  let ?s = "start ''extern 5''"
  have token: "current_token (get_next_token ?s) = tok_number"
    by code_simp
  have digits: "to_string tok_number = ''-5''"
    by code_simp
  have "parse_extern ?s = parse_prototype (get_next_token ?s)"
    by (rule parser_error_contract [where s = ?s, THEN conjunct2, THEN conjunct2, THEN conjunct2, THEN conjunct2, THEN conjunct2, THEN conjunct2, THEN conjunct2, THEN conjunct2, THEN conjunct2, THEN conjunct2, THEN conjunct2, THEN conjunct2, THEN conjunct2, THEN conjunct2, THEN conjunct2, THEN conjunct2, THEN conjunct2, THEN conjunct2, THEN conjunct2, THEN conjunct1])
  also have "\<dots> = (None, log_error
        (''Expected function name in prototype, got ''
         @ to_string (current_token (get_next_token ?s)) @ '' instead'') (get_next_token ?s))"
    by (rule parser_error_contract [where s = "get_next_token ?s", THEN conjunct2, THEN conjunct2, THEN conjunct2, THEN conjunct2, THEN conjunct2, THEN conjunct2, THEN conjunct2, THEN conjunct2, THEN conjunct2, THEN conjunct2, THEN conjunct2, THEN conjunct2, THEN conjunct2, THEN conjunct2, THEN conjunct2, THEN conjunct2, THEN conjunct1, rule_format])
      (simp add: token)
  finally show "parse_extern ?s
       = (None, log_error ''Expected function name in prototype, got -5 instead''
            (get_next_token ?s))"
    by (simp only: token digits) simp
next
  let ?s = "start ''extern f(a b)''"
  have "fst (parse_extern ?s) = Some (prototype_ast ''f'' [''a'', ''b''])"
    by code_simp
  then show "stream (get_next_token ?s)
       = prototype_tokens ''f'' [''a'', ''b''] @ stream (snd (parse_extern ?s))"
    by (rule parser_error_contract [where s = ?s, THEN conjunct2, THEN conjunct2, THEN conjunct2, THEN conjunct2, THEN conjunct2, THEN conjunct2, THEN conjunct2, THEN conjunct2, THEN conjunct2, THEN conjunct2, THEN conjunct2, THEN conjunct2, THEN conjunct2, THEN conjunct2, THEN conjunct2, THEN conjunct2, THEN conjunct2, THEN conjunct2, THEN conjunct2, THEN conjunct2, THEN conjunct2, THEN conjunct2, THEN conjunct2, THEN conjunct2, THEN conjunct2, THEN conjunct2, rule_format])
next
  let ?s = "start ''1+2''"
  let ?x = "parse_expression (enough ?s) ?s"
  let ?e = "binary_expr_ast CHR ''+'' (number_expr_ast 1) (number_expr_ast 2)"
  have "map_option fst ?x = Some (Some ?e)"
    by code_simp
  then have "?x = Some (Some ?e, snd (the ?x))"
    by (cases ?x) auto
  then have "parsed (expression_tokens (precedence_of (binop_precedence ?s))) ?s (snd (the ?x))"
    by (rule parser_error_contract [where n = "enough ?s" and s = ?s, THEN conjunct2, THEN conjunct2, THEN conjunct2, THEN conjunct2, THEN conjunct2, THEN conjunct2, THEN conjunct2, THEN conjunct2, THEN conjunct2, THEN conjunct2, THEN conjunct2, THEN conjunct2, THEN conjunct2, THEN conjunct2, THEN conjunct2, THEN conjunct2, THEN conjunct2, THEN conjunct2, THEN conjunct2, THEN conjunct2, THEN conjunct2, THEN conjunct2, THEN conjunct2, THEN conjunct1, rule_format])
  then show "parsed (expression_tokens (precedence_of binop_precedence_init)) ?s
      (snd (the ?x))"
    by (simp add: start_def initial_state_def)
qed

text \<open>
  C7. Every operator of a \<^verbatim>\<open>binary_expr_ast\<close> in a tree returned by
  \<^verbatim>\<open>parse_expression\<close>, \<^verbatim>\<open>parse_top_level_expr\<close> or \<^verbatim>\<open>parse_definition\<close> has a
  strictly positive entry in the precedence table the call started with; with the
  precedences of the initial table it is one of \<open><\<close>, \<open>>\<close>, \<open>+\<close>, \<open>-\<close>,
  \<open>*\<close> and \<open>/\<close>. The call leaves every precedence of the table as it was (the
  look-ups add zero entries only), so the next call starts with the same precedences.
  (\<^verbatim>\<open>parse_extern\<close> returns a prototype, which holds no expression.)
\<close>

theorem binary_operators_in_table:
  "parse_expression n s = Some (Some e, s')
     \<or> parse_top_level_expr n s = Some (Some (function_ast proto e), s')
     \<or> parse_definition n s = Some (Some (function_ast proto e), s')
   \<longrightarrow> precedence_of (binop_precedence s') = precedence_of (binop_precedence s)
     \<and> (\<forall>c \<in> set (operators e).
          0 < precedence_of (binop_precedence s) c
          \<and> (precedence_of (binop_precedence s) = precedence_of binop_precedence_init \<longrightarrow>
               c \<in> {CHR ''<'', CHR ''>'', CHR ''+'', CHR ''-'', CHR ''*'', CHR ''/''}))"
proof
  note expr = parse_operators [THEN conjunct2, THEN conjunct2, THEN conjunct2,
      THEN conjunct2, THEN conjunct2, rule_format]
  note keep = parse_keeps_precedence [THEN conjunct2, THEN conjunct2, THEN conjunct2,
      THEN conjunct2, THEN conjunct2, rule_format]
  assume "parse_expression n s = Some (Some e, s')
     \<or> parse_top_level_expr n s = Some (Some (function_ast proto e), s')
     \<or> parse_definition n s = Some (Some (function_ast proto e), s')"
  then consider (expr_case) "parse_expression n s = Some (Some e, s')"
    | (top_level) "parse_top_level_expr n s = Some (Some (function_ast proto e), s')"
    | (defn) "parse_definition n s = Some (Some (function_ast proto e), s')"
    by blast
  then have "precedence_of (binop_precedence s') = precedence_of (binop_precedence s)
      \<and> operators_from (precedence_of (binop_precedence s)) e"
  proof cases
    case expr_case
    then show ?thesis
      using expr [OF expr_case] keep [OF expr_case] by simp
  next
    case top_level
    then have e: "parse_expression n s = Some (Some e, s')"
      by (auto simp: parse_top_level_expr_def split: option.splits)
    show ?thesis
      using expr [OF e] keep [OF e] by simp
  next
    case defn
    let ?s2 = "snd (parse_prototype (get_next_token s))"
    from defn have e: "parse_expression n ?s2 = Some (Some e, s')"
      by (auto simp: parse_definition_def Let_def case_prod_beta split: option.splits)
    show ?thesis
      using expr [OF e] keep [OF e] by simp
  qed
  then have kept: "precedence_of (binop_precedence s') = precedence_of (binop_precedence s)"
    and positive: "\<forall>c \<in> set (operators e). 0 < precedence_of (binop_precedence s) c"
    by (simp_all add: operators_from_def)
  have "\<forall>c \<in> set (operators e).
          0 < precedence_of (binop_precedence s) c
          \<and> (precedence_of (binop_precedence s) = precedence_of binop_precedence_init \<longrightarrow>
               c \<in> {CHR ''<'', CHR ''>'', CHR ''+'', CHR ''-'', CHR ''*'', CHR ''/''})"
  proof (intro ballI conjI impI)
    fix c
    assume c: "c \<in> set (operators e)"
    with positive show "0 < precedence_of (binop_precedence s) c"
      by blast
    assume "precedence_of (binop_precedence s) = precedence_of binop_precedence_init"
    with positive c have "0 < precedence_of binop_precedence_init c"
      by auto
    then show "c \<in> {CHR ''<'', CHR ''>'', CHR ''+'', CHR ''-'', CHR ''*'', CHR ''/''}"
      by (auto simp: precedence_of_init split: if_splits)
  qed
  with kept show "precedence_of (binop_precedence s') = precedence_of (binop_precedence s)
     \<and> (\<forall>c \<in> set (operators e).
          0 < precedence_of (binop_precedence s) c
          \<and> (precedence_of (binop_precedence s) = precedence_of binop_precedence_init \<longrightarrow>
               c \<in> {CHR ''<'', CHR ''>'', CHR ''+'', CHR ''-'', CHR ''*'', CHR ''/''}))"
    by (rule conjI)
qed

theorem binary_operators_in_table_witness:
  "map_option fst (parse_expression (enough (start ''a<b*(c-1)'')) (start ''a<b*(c-1)''))
     = Some (Some (binary_expr_ast CHR ''<'' (variable_expr_ast ''a'')
         (binary_expr_ast CHR ''*'' (variable_expr_ast ''b'')
            (binary_expr_ast CHR ''-'' (variable_expr_ast ''c'') (number_expr_ast 1)))))
   \<and> set (operators (binary_expr_ast CHR ''<'' (variable_expr_ast ''a'')
         (binary_expr_ast CHR ''*'' (variable_expr_ast ''b'')
            (binary_expr_ast CHR ''-'' (variable_expr_ast ''c'') (number_expr_ast 1)))))
       \<subseteq> {CHR ''<'', CHR ''>'', CHR ''+'', CHR ''-'', CHR ''*'', CHR ''/''}"
proof -
  let ?s = "start ''a<b*(c-1)''"
  let ?x = "parse_expression (enough ?s) ?s"
  let ?e = "binary_expr_ast CHR ''<'' (variable_expr_ast ''a'')
         (binary_expr_ast CHR ''*'' (variable_expr_ast ''b'')
            (binary_expr_ast CHR ''-'' (variable_expr_ast ''c'') (number_expr_ast 1)))"
  have result: "map_option fst ?x = Some (Some ?e)"
    by code_simp
  then have "?x = Some (Some ?e, snd (the ?x))"
    by (cases ?x) auto
  moreover have "precedence_of (binop_precedence ?s) = precedence_of binop_precedence_init"
    by (simp add: start_def initial_state_def)
  ultimately have "\<forall>c \<in> set (operators ?e).
      c \<in> {CHR ''<'', CHR ''>'', CHR ''+'', CHR ''-'', CHR ''*'', CHR ''/''}"
    using binary_operators_in_table [of "enough ?s" ?s ?e "snd (the ?x)"] by blast
  then have "set (operators ?e)
      \<subseteq> {CHR ''<'', CHR ''>'', CHR ''+'', CHR ''-'', CHR ''*'', CHR ''/''}"
    by blast
  with result show ?thesis
    by (rule conjI)
qed

text \<open>
  C2 (as the code has it). The tokens of a complete tokenization are determined by the
  input and by the look-ahead character the run starts with: two runs over the same input
  that both start with \<^verbatim>\<open>last_char\<close> a blank, its value at program start, yield the
  same token sequence, whatever \<^verbatim>\<open>identifier_str\<close>, \<^verbatim>\<open>numeric_value\<close> and the
  parser's globals hold. The look-ahead character itself survives a run: it is
  \<^verbatim>\<open>EOF\<close> when the run ends, and a further run started in that state yields the
  end-of-input token alone without reading its input: standard input is left as the run
  found it, and so is every variable of the program.
\<close>

theorem retokenize:
  "(last_char s = 32 \<and> last_char t = 32 \<and> stdin s = stdin t \<longrightarrow>
      fst (tokenize s) = fst (tokenize t))
   \<and> last_char (snd (tokenize s)) = EOF
   \<and> fst (tokenize (rewind inp (snd (tokenize s)))) = [Tok_eof]
   \<and> stdin (snd (tokenize (rewind inp (snd (tokenize s))))) = inp
   \<and> snd (tokenize (rewind inp (snd (tokenize s)))) = rewind inp (snd (tokenize s))"
proof (intro conjI impI)
  assume "last_char s = 32 \<and> last_char t = 32 \<and> stdin s = stdin t"
  then have "lexer_eq s t" and "- 1 \<le> last_char s"
    by (simp_all add: lexer_eq_def)
  then show "fst (tokenize s) = fst (tokenize t)"
    using lexer_eq_tokenize by blast
next
  show "last_char (snd (tokenize s)) = EOF"
    by (rule last_char_tokenize)
  then have "last_char (rewind inp (snd (tokenize s))) = EOF"
    by (simp add: rewind_def)
  then have again: "tokenize (rewind inp (snd (tokenize s)))
      = ([Tok_eof], rewind inp (snd (tokenize s)))"
    by (rule tokenize_at_EOF)
  then show "fst (tokenize (rewind inp (snd (tokenize s)))) = [Tok_eof]"
    by simp
  from again show "stdin (snd (tokenize (rewind inp (snd (tokenize s))))) = inp"
    by (simp add: rewind_def)
  from again show "snd (tokenize (rewind inp (snd (tokenize s))))
      = rewind inp (snd (tokenize s))"
    by simp
qed

theorem retokenize_witness:
  "fst (tokenize ((initial_state ''x1 2.5'')\<lparr>identifier_str := ''old'', numeric_value := 7\<rparr>))
     = fst (tokenize (initial_state ''x1 2.5''))
   \<and> fst (tokenize (initial_state ''x1 2.5''))
     = [Tok_identifier ''x1'', Tok_number (5 / 2), Tok_eof]
   \<and> stdin (snd (tokenize (rewind ''x1 2.5'' (snd (tokenize (initial_state ''x1 2.5''))))))
     = ''x1 2.5''"
proof (intro conjI)
  show "fst (tokenize ((initial_state ''x1 2.5'')
            \<lparr>identifier_str := ''old'', numeric_value := 7\<rparr>))
      = fst (tokenize (initial_state ''x1 2.5''))"
    using retokenize [of "(initial_state ''x1 2.5'')
        \<lparr>identifier_str := ''old'', numeric_value := 7\<rparr>" "initial_state ''x1 2.5''"]
    by (simp add: initial_state_def)
  show "fst (tokenize (initial_state ''x1 2.5''))
      = [Tok_identifier ''x1'', Tok_number (5 / 2), Tok_eof]"
    by code_simp
  show "stdin (snd (tokenize (rewind ''x1 2.5'' (snd (tokenize (initial_state ''x1 2.5''))))))
      = ''x1 2.5''"
    using retokenize [of "initial_state ''x1 2.5''" "initial_state ''x1 2.5''" "''x1 2.5''"]
    by blast
qed

text \<open>
  C2 as stated fails: tokenizing \<^verbatim>\<open>1\<close> a second time, in the state the first
  tokenization left, does not yield the tokens of the first.
\<close>

theorem retokenize_counterexample:
  "fst (tokenize (rewind ''1'' (snd (tokenize (initial_state ''1'')))))
     \<noteq> fst (tokenize (initial_state ''1''))"
  by code_simp

text \<open>
  C9. The parameters of a prototype are the identifier tokens that follow the opening
  parenthesis, in order, up to the first token that is no identifier, and that token must
  be the closing parenthesis: there is no separator, and a comma after a parameter fails
  the parse. So \<^verbatim>\<open>def foo(x y) x+y\<close> parses to the function \<open>foo\<close> with parameters
  \<open>x\<close> and \<open>y\<close> and body \<open>x + y\<close>, and \<^verbatim>\<open>def foo(x, y) x+y\<close> is rejected at
  the comma (token 44).
\<close>

theorem parse_prototype_parameters:
  "map_option fst
      (parse_definition (enough (start ''def foo(x y) x+y'')) (start ''def foo(x y) x+y''))
     = Some (Some (function_ast (prototype_ast ''foo'' [''x'', ''y''])
         (binary_expr_ast CHR ''+'' (variable_expr_ast ''x'') (variable_expr_ast ''y''))))
   \<and> map_option (\<lambda>(r, s'). (r, cerr s'))
      (parse_definition (enough (start ''def foo(x, y) x+y'')) (start ''def foo(x, y) x+y''))
     = Some (None, ''log_error: Expected ')' in prototype, got 44 instead.'' @ [CHR 0x0A])
   \<and> (fst (parse_prototype s) = Some (prototype_ast fn_name arg_names) \<longrightarrow>
        fn_name = identifier_str s
        \<and> arg_names = leading_identifiers (fst (tokenize (get_next_token s)))
        \<and> hd (after_identifiers (fst (tokenize (get_next_token s)))) = Tok_char 41)"
proof (intro conjI impI)
  show "map_option fst
      (parse_definition (enough (start ''def foo(x y) x+y'')) (start ''def foo(x y) x+y''))
     = Some (Some (function_ast (prototype_ast ''foo'' [''x'', ''y''])
         (binary_expr_ast CHR ''+'' (variable_expr_ast ''x'') (variable_expr_ast ''y''))))"
    by code_simp
  show "map_option (\<lambda>(r, s'). (r, cerr s'))
      (parse_definition (enough (start ''def foo(x, y) x+y'')) (start ''def foo(x, y) x+y''))
     = Some (None, ''log_error: Expected ')' in prototype, got 44 instead.'' @ [CHR 0x0A])"
    by code_simp
next
  assume ok: "fst (parse_prototype s) = Some (prototype_ast fn_name arg_names)"
  define s1 where "s1 = get_next_token s"
  define s2 where "s2 = snd (read_arg_names [] s1)"
  have tokens: "fst (read_arg_names [] s1) = leading_identifiers (fst (tokenize s1))"
    "token_of (current_token s2) s2 = hd (after_identifiers (fst (tokenize s1)))"
    using read_arg_names_tokens [of "[]" s1] by (simp_all add: s2_def)
  from ok have "current_token s = tok_identifier \<and> current_token s1 = 40
      \<and> current_token s2 = 41 \<and> fn_name = identifier_str s
      \<and> arg_names = fst (read_arg_names [] s1)"
    by (simp add: parse_prototype_def Let_def case_prod_beta s1_def [symmetric]
        s2_def [symmetric] split: if_splits)
  with tokens show "fn_name = identifier_str s"
    and "arg_names = leading_identifiers (fst (tokenize (get_next_token s)))"
    and "hd (after_identifiers (fst (tokenize (get_next_token s)))) = Tok_char 41"
    by (auto simp: s1_def token_of_def)
qed

theorem parse_prototype_parameters_witness:
  "fst (parse_prototype (get_next_token (start ''def foo(x y) x+y'')))
     = Some (prototype_ast ''foo'' [''x'', ''y''])
   \<and> leading_identifiers
        (fst (tokenize (get_next_token (get_next_token (start ''def foo(x y) x+y'')))))
     = [''x'', ''y'']
   \<and> hd (after_identifiers
        (fst (tokenize (get_next_token (get_next_token (start ''def foo(x y) x+y''))))))
     = Tok_char 41"
proof -
  let ?s = "get_next_token (start ''def foo(x y) x+y'')"
  have proto: "fst (parse_prototype ?s) = Some (prototype_ast ''foo'' [''x'', ''y''])"
    by code_simp
  with parse_prototype_parameters [of ?s "''foo''" "[''x'', ''y'']"] show ?thesis
    by simp
qed

end
